theory Spec2Isabelle
  imports Main
begin

section \<open>Characters and the string primitives of the parser\<close>

text \<open>
  The buffer is a Python \<open>str\<close>. It is modelled as a \<open>string\<close> whose characters
  are the code points 0..255; on this range the classes used by the patterns are
  finite and written out below: \<^verbatim>\<open>\d\<close> is the ten ASCII digits, \<^verbatim>\<open>[A-Z]\<close> the
  upper-case ASCII letters, and \<^verbatim>\<open>\s\<close> (which is also the set removed by
  \<^verbatim>\<open>str.strip()\<close>) the code points 9..13, 28..32, 0x85 and 0xA0.
\<close>

definition nl :: char where
  "nl = CHR 0x0A"

definition sp :: char where
  "sp = CHR '' ''"

definition is_space :: "char \<Rightarrow> bool" where
  "is_space c = (c \<in> set [CHR 0x09, CHR 0x0A, CHR 0x0B, CHR 0x0C, CHR 0x0D,
                          CHR 0x1C, CHR 0x1D, CHR 0x1E, CHR 0x1F, CHR 0x20,
                          CHR 0x85, CHR 0xA0])"

definition is_digit :: "char \<Rightarrow> bool" where
  "is_digit c = (48 \<le> (of_char c :: nat) \<and> (of_char c :: nat) \<le> 57)"

definition is_upper :: "char \<Rightarrow> bool" where
  "is_upper c = (65 \<le> (of_char c :: nat) \<and> (of_char c :: nat) \<le> 90)"

text \<open>
  \<^verbatim>\<open>int(s)\<close> raises \<open>ValueError\<close> on a string that is not a number, and also on
  a string with more digits than the interpreter's limit on conversions, which is 4300
  unless it is configured otherwise (\<^verbatim>\<open>sys.get_int_max_str_digits()\<close>); leading
  zeros count. The parser only ever passes a captured run of digits; the model accepts
  the non-empty digit strings within the limit and reports the error on everything else.
\<close>

definition int_max_str_digits :: nat where
  "int_max_str_digits = 4300"

datatype error = ValueError | KeyError

definition bind_e :: "error + 'a \<Rightarrow> ('a \<Rightarrow> error + 'b) \<Rightarrow> error + 'b" where
  "bind_e r f = (case r of Inl e \<Rightarrow> Inl e | Inr v \<Rightarrow> f v)"

definition digit_val :: "char \<Rightarrow> int" where
  "digit_val c = int (of_char c - 48)"

definition py_int :: "string \<Rightarrow> error + int" where
  "py_int s =
     (if s \<noteq> [] \<and> list_all is_digit s \<and> length s \<le> int_max_str_digits
      then Inr (foldl (\<lambda>a c. 10 * a + digit_val c) 0 s)
      else Inl ValueError)"

text \<open>The decimal rendering of an integer inside an f-string.\<close>

fun str_nat :: "nat \<Rightarrow> string" where
  "str_nat n =
     (if n < 10 then [char_of (48 + n)]
      else str_nat (n div 10) @ [char_of (48 + n mod 10)])"

declare str_nat.simps [simp del]

definition py_str :: "int \<Rightarrow> string" where
  "py_str k = (if k < 0 then CHR ''-'' # str_nat (nat (- k)) else str_nat (nat k))"

text \<open>\<^verbatim>\<open>s[a:b]\<close> for indices that are not negative.\<close>

definition slice :: "'a list \<Rightarrow> nat \<Rightarrow> nat \<Rightarrow> 'a list" where
  "slice s a b = take (b - a) (drop a s)"

text \<open>\<^verbatim>\<open>s.replace('\n', ' ')\<close>\<close>

definition replace_nl :: "string \<Rightarrow> string" where
  "replace_nl s = map (\<lambda>c. if c = nl then sp else c) s"

text \<open>\<^verbatim>\<open>s.strip()\<close>\<close>

definition strip :: "string \<Rightarrow> string" where
  "strip s = rev (dropWhile is_space (rev (dropWhile is_space s)))"

text \<open>\<^verbatim>\<open>re.sub(r'\s+', ' ', s)\<close>: every maximal run of white space becomes one blank.\<close>

function sub_ws :: "string \<Rightarrow> string" where
  "sub_ws [] = []"
| "sub_ws (c # cs) =
     (if is_space c then sp # sub_ws (dropWhile is_space cs) else c # sub_ws cs)"
  by pat_completeness auto
termination
  by (relation "measure length") (auto simp: length_dropWhile_le less_Suc_eq_le)

text \<open>
  The three steps applied to the text of a level, in the order of the source:
  \<^verbatim>\<open>area_text[l_start:l_end].replace('\n', ' ').strip()\<close> and then the substitution.
\<close>

definition lvl_desc :: "string \<Rightarrow> string" where
  "lvl_desc s = sub_ws (strip (replace_nl s))"

section \<open>The two header patterns\<close>

text \<open>
  A pattern is modelled by what it matches at the start of a text: the length of the
  match and the captured groups, or \<open>None\<close>. Neither pattern has an anchor or a
  look-around, so a match at a position depends only on the text from that position on.

  \<^verbatim>\<open>Area (\d)([A-Z])\.\s*(.*)\<close>: after the fixed eight characters the greedy
  \<^verbatim>\<open>\s*\<close> takes the whole run of white space (line breaks included) and the greedy
  \<^verbatim>\<open>(.*)\<close> takes everything up to the next \<^verbatim>\<open>\n\<close>.

  \<^verbatim>\<open>Level\s*(\d+)\s*\.\s*(.*)\<close>: white space, digits and the period are pairwise
  disjoint classes, so the pattern matches exactly when the maximal runs line up.

  Both are written here as the scanners that the patterns amount to; the lemmas
  \<open>area_pattern_regex\<close> and \<open>level_pattern_regex\<close> below show that they return what
  a backtracking matcher returns on the patterns themselves.
\<close>

record 'g rmatch =
  m_start :: nat
  m_end :: nat
  m_groups :: 'g

definition lit :: "string \<Rightarrow> string \<Rightarrow> string option" where
  "lit w s = (if take (length w) s = w then Some (drop (length w) s) else None)"

definition area_pattern :: "string \<Rightarrow> (nat \<times> (string \<times> string \<times> string)) option" where
  "area_pattern s =
     (case lit ''Area '' s of
        None \<Rightarrow> None
      | Some s1 \<Rightarrow>
          (case s1 of
             d # l # p # s2 \<Rightarrow>
               if is_digit d \<and> is_upper l \<and> p = CHR ''.'' then
                 let ws = takeWhile is_space s2;
                     s3 = dropWhile is_space s2;
                     rest = takeWhile (\<lambda>c. c \<noteq> nl) s3
                 in Some (8 + length ws + length rest, ([d], [l], rest))
               else None
           | _ \<Rightarrow> None))"

definition level_pattern :: "string \<Rightarrow> (nat \<times> (string \<times> string)) option" where
  "level_pattern s =
     (case lit ''Level'' s of
        None \<Rightarrow> None
      | Some s1 \<Rightarrow>
          let ws1 = takeWhile is_space s1;
              s2 = dropWhile is_space s1;
              num = takeWhile is_digit s2;
              s3 = dropWhile is_digit s2;
              ws2 = takeWhile is_space s3;
              s4 = dropWhile is_space s3
          in if num = [] then None
             else
               (case s4 of
                  [] \<Rightarrow> None
                | p # s5 \<Rightarrow>
                    if p \<noteq> CHR ''.'' then None
                    else
                      let ws3 = takeWhile is_space s5;
                          s6 = dropWhile is_space s5;
                          rest = takeWhile (\<lambda>c. c \<noteq> nl) s6
                      in Some (5 + length ws1 + length num + length ws2 + 1
                                 + length ws3 + length rest,
                               (num, rest))))"

text \<open>
  \<^verbatim>\<open>pattern.finditer(text)\<close>: the matches from left to right, each search starting
  where the previous match ended. \<open>pos\<close> is the offset of \<open>s\<close> in the whole text.
  Both patterns start with a literal word, so no match is empty (lemmas
  \<open>area_pattern_proper\<close> and \<open>level_pattern_proper\<close>), and the handling of empty
  matches by the library is left out: the scan would stop there.
\<close>

function finditer :: "(string \<Rightarrow> (nat \<times> 'g) option) \<Rightarrow> nat \<Rightarrow> string \<Rightarrow> 'g rmatch list" where
  "finditer pat pos s =
     (if s = [] then []
      else
        (case pat s of
           None \<Rightarrow> finditer pat (Suc pos) (tl s)
         | Some (n, g) \<Rightarrow>
             if n = 0 then []
             else \<lparr>m_start = pos, m_end = pos + n, m_groups = g\<rparr>
                    # finditer pat (pos + n) (drop n s)))"
  by pat_completeness auto
termination
  by (relation "measure (\<lambda>(pat, pos, s). length s)") auto

declare finditer.simps [simp del]

subsection \<open>The patterns as regular expressions\<close>

text \<open>
  The two patterns only use literals, single characters of a class and greedy
  repetitions of a class, some of them captured. Such a pattern is a list of atoms, each
  with a flag saying whether it is a group. \<open>bt\<close> is the backtracking matcher: a
  repetition first takes the longest run and gives characters back one at a time, down to
  its minimum, until the rest of the pattern matches; the first success is the result,
  the length of the match and the groups in order.
\<close>

datatype atom = Lit string | One "char \<Rightarrow> bool" | Star "char \<Rightarrow> bool" | Plus "char \<Rightarrow> bool"

definition emit :: "bool \<Rightarrow> string \<Rightarrow> (nat \<times> string list) option \<Rightarrow> (nat \<times> string list) option" where
  "emit cap txt res =
     (case res of
        None \<Rightarrow> None
      | Some (k, gs) \<Rightarrow> Some (length txt + k, if cap then txt # gs else gs))"

fun bt :: "(bool \<times> atom) list \<Rightarrow> string \<Rightarrow> (nat \<times> string list) option"
  and bt_rep :: "bool \<Rightarrow> (bool \<times> atom) list \<Rightarrow> nat \<Rightarrow> nat \<Rightarrow> string \<Rightarrow> (nat \<times> string list) option"
where
  "bt [] s = Some (0, [])"
| "bt ((cap, Lit w) # r) s =
     (if take (length w) s = w then emit cap w (bt r (drop (length w) s)) else None)"
| "bt ((cap, One P) # r) s =
     (case s of [] \<Rightarrow> None | c # cs \<Rightarrow> if P c then emit cap [c] (bt r cs) else None)"
| "bt ((cap, Star P) # r) s = bt_rep cap r 0 (length (takeWhile P s)) s"
| "bt ((cap, Plus P) # r) s = bt_rep cap r 1 (length (takeWhile P s)) s"
| "bt_rep cap r lo n s =
     (if n < lo then None
      else
        (case emit cap (take n s) (bt r (drop n s)) of
           Some x \<Rightarrow> Some x
         | None \<Rightarrow> if n = 0 then None else bt_rep cap r lo (n - 1) s))"

declare bt_rep.simps [simp del]

definition not_nl :: "char \<Rightarrow> bool" where "not_nl c = (c \<noteq> nl)"

text \<open>\<^verbatim>\<open>Area (\d)([A-Z])\.\s*(.*)\<close> and \<^verbatim>\<open>Level\s*(\d+)\s*\.\s*(.*)\<close>\<close>

definition area_regex :: "(bool \<times> atom) list" where
  "area_regex = [(False, Lit ''Area ''), (True, One is_digit), (True, One is_upper),
                 (False, Lit ''.''), (False, Star is_space), (True, Star not_nl)]"

definition level_regex :: "(bool \<times> atom) list" where
  "level_regex = [(False, Lit ''Level''), (False, Star is_space), (True, Plus is_digit),
                  (False, Star is_space), (False, Lit ''.''), (False, Star is_space),
                  (True, Star not_nl)]"

section \<open>The result tree\<close>

record level_entry =
  level :: int
  title :: string
  description :: string

record area_entry =
  id_area :: string
  name_area :: string
  levels :: "level_entry list"

record axis_entry =
  id_axis :: int
  name_axis :: string
  areas :: "area_entry list"

section \<open>parse\_drd\_content\<close>

text \<open>A \<^verbatim>\<open>for\<close> loop whose body may raise: the first error ends the loop.\<close>

fun for_each :: "('s \<Rightarrow> 'a \<Rightarrow> error + 's) \<Rightarrow> 'a list \<Rightarrow> 's \<Rightarrow> error + 's" where
  "for_each body [] st = Inr st"
| "for_each body (x # xs) st = bind_e (body st x) (for_each body xs)"

text \<open>
  \<^verbatim>\<open>matches[i+1].start() if i + 1 < len(matches) else len(text)\<close>, the end of
  the span of match \<open>i\<close>; the index is read only under the guard.
\<close>

definition span_end :: "'g rmatch list \<Rightarrow> string \<Rightarrow> nat \<Rightarrow> nat" where
  "span_end matches text i =
     (if i + 1 < length matches then m_start (matches ! (i + 1)) else length text)"

text \<open>The text between the end of match \<open>i\<close> and the end of its span.\<close>

definition span_text :: "'g rmatch list \<Rightarrow> string \<Rightarrow> nat \<times> 'g rmatch \<Rightarrow> string" where
  "span_text matches text im =
     (case im of (i, match) \<Rightarrow> slice text (m_end match) (span_end matches text i))"

text \<open>
  One pass of the inner loop over \<^verbatim>\<open>enumerate(level_matches)\<close>: the dictionary
  that is appended to \<^verbatim>\<open>levels\<close>.
\<close>

definition build_level ::
  "string \<Rightarrow> (string \<times> string) rmatch list
     \<Rightarrow> nat \<times> (string \<times> string) rmatch \<Rightarrow> error + level_entry" where
  "build_level area_text level_matches jm =
     (case jm of (j, l_match) \<Rightarrow>
        bind_e (py_int (fst (m_groups l_match))) (\<lambda>lvl_num.
          let lvl_title = strip (snd (m_groups l_match));
              desc = lvl_desc (span_text level_matches area_text (j, l_match))
          in Inr \<lparr>level = lvl_num, title = lvl_title, description = desc\<rparr>))"

definition parse_levels :: "string \<Rightarrow> error + level_entry list" where
  "parse_levels area_text =
     (let level_matches = finditer level_pattern 0 area_text
      in for_each
           (\<lambda>lvls jm. bind_e (build_level area_text level_matches jm)
                         (\<lambda>l. Inr (lvls @ [l])))
           (enumerate 0 level_matches) [])"

text \<open>
  Lines 25 to 54 and the dictionary built at the end of the body: the axis number of an
  outer match and the area it stands for.
\<close>

definition build_area ::
  "string \<Rightarrow> (string \<times> string \<times> string) rmatch list
     \<Rightarrow> nat \<times> (string \<times> string \<times> string) rmatch \<Rightarrow> error + (int \<times> area_entry)" where
  "build_area content area_matches im =
     (case im of (i, match) \<Rightarrow>
        bind_e (py_int (fst (m_groups match))) (\<lambda>axis_num.
          let area_letter = fst (snd (m_groups match));
              area_name = strip (snd (snd (m_groups match)));
              area_text = span_text area_matches content (i, match)
          in bind_e (parse_levels area_text) (\<lambda>lvls.
               Inr (axis_num,
                    \<lparr>id_area = py_str axis_num @ area_letter,
                     name_area = area_name,
                     levels = lvls\<rparr>))))"

text \<open>
  \<^verbatim>\<open>axis_entry["areas"].append(area)\<close>, where \<^verbatim>\<open>axis_entry\<close> is the first
  entry of the list with the given id (the one \<^verbatim>\<open>next(...)\<close> returns, or the entry
  just appended when there was none). The entry is shared with the list, so the list
  sees the new area.
\<close>

fun append_area :: "int \<Rightarrow> area_entry \<Rightarrow> axis_entry list \<Rightarrow> axis_entry list" where
  "append_area k a [] = []"
| "append_area k a (x # xs) =
     (if id_axis x = k then x\<lparr>areas := areas x @ [a]\<rparr> # xs
      else x # append_area k a xs)"

text \<open>
  Lines 56 to 70. An entry is a dictionary with three keys and so never falsy:
  \<^verbatim>\<open>not axis_entry\<close> holds exactly when the search returned \<^verbatim>\<open>None\<close>.
\<close>

definition add_to_structure :: "axis_entry list \<Rightarrow> int \<Rightarrow> area_entry \<Rightarrow> axis_entry list" where
  "add_to_structure drd_data axis_num area =
     (let drd_data' =
            (case find (\<lambda>x. id_axis x = axis_num) drd_data of
               None \<Rightarrow>
                 drd_data @ [\<lparr>id_axis = axis_num,
                              name_axis = ''Axis '' @ py_str axis_num,
                              areas = []\<rparr>]
             | Some axis_entry \<Rightarrow> drd_data)
      in append_area axis_num area drd_data')"

text \<open>The function itself, from the contents of the file on.\<close>

definition parse_drd_content :: "string \<Rightarrow> error + axis_entry list" where
  "parse_drd_content content =
     (let area_matches = finditer area_pattern 0 content
      in for_each
           (\<lambda>drd_data im. bind_e (build_area content area_matches im)
                             (\<lambda>(axis_num, area).
                                Inr (add_to_structure drd_data axis_num area)))
           (enumerate 0 area_matches) [])"

section \<open>The name table of the main program\<close>

definition axis_names_table :: "(int \<times> string) list" where
  "axis_names_table =
     [(1, ''Digital Processes''),
      (2, ''Digital Products''),
      (3, ''Digital Business Models''),
      (4, ''Data Management''),
      (5, ''Digital Culture''),
      (6, ''Cybersecurity''),
      (7, ''Artificial Intelligence'')]"

definition axis_names :: "int \<rightharpoonup> string" where
  "axis_names = map_of axis_names_table"

text \<open>\<^verbatim>\<open>d[k]\<close> raises \<open>KeyError\<close> when the key is missing.\<close>

definition getitem :: "('k \<rightharpoonup> 'v) \<Rightarrow> 'k \<Rightarrow> error + 'v" where
  "getitem d k = (case d k of None \<Rightarrow> Inl KeyError | Some v \<Rightarrow> Inr v)"

text \<open>
  The loop of the main program, for any table:
  \<^verbatim>\<open>for axis in data: if axis["id"] in axis_names: axis["name"] = axis_names[axis["id"]]\<close>
\<close>

definition enrich_axis :: "(int \<rightharpoonup> string) \<Rightarrow> axis_entry \<Rightarrow> error + axis_entry" where
  "enrich_axis names axis =
     (if names (id_axis axis) \<noteq> None
      then bind_e (getitem names (id_axis axis)) (\<lambda>n. Inr (axis\<lparr>name_axis := n\<rparr>))
      else Inr axis)"

fun enrich :: "(int \<rightharpoonup> string) \<Rightarrow> axis_entry list \<Rightarrow> error + axis_entry list" where
  "enrich names [] = Inr []"
| "enrich names (axis # rest) =
     bind_e (enrich_axis names axis) (\<lambda>axis'.
       bind_e (enrich names rest) (\<lambda>rest'. Inr (axis' # rest')))"

section \<open>Notions used to state the properties\<close>

text \<open>The characters of a text at the positions from \<open>a\<close> up to, not including, \<open>b\<close>.\<close>

definition chars_at :: "string \<Rightarrow> nat \<Rightarrow> nat \<Rightarrow> string" where
  "chars_at text a b = map (\<lambda>k. text ! k) [a..<b]"

text \<open>The members of a list in the order of their first occurrence.\<close>

fun first_occ :: "'a list \<Rightarrow> 'a list" where
  "first_occ [] = []"
| "first_occ (x # xs) = x # removeAll x (first_occ xs)"

text \<open>
  The characters that end a line for \<^verbatim>\<open>str.splitlines()\<close> on the modelled range:
  line feed, vertical tab, form feed, carriage return, the three separators 0x1C to
  0x1E and the next-line character 0x85.
\<close>

definition is_linebreak :: "char \<Rightarrow> bool" where
  "is_linebreak c = (c \<in> set [CHR 0x0A, CHR 0x0B, CHR 0x0C, CHR 0x0D,
                              CHR 0x1C, CHR 0x1D, CHR 0x1E, CHR 0x85])"

text \<open>No two neighbouring characters are both white space.\<close>

fun no_ws_run :: "string \<Rightarrow> bool" where
  "no_ws_run (a # b # cs) = ((\<not> is_space a \<or> \<not> is_space b) \<and> no_ws_run (b # cs))"
| "no_ws_run cs = True"

text \<open>Neither the first nor the last character is white space.\<close>

definition trimmed :: "string \<Rightarrow> bool" where
  "trimmed s = (s = [] \<or> (\<not> is_space (hd s) \<and> \<not> is_space (last s)))"

text \<open>
  The normalisation in the order of the specification: line feeds replaced, runs of white
  space collapsed, and then the ends trimmed.
\<close>

definition normalize_spec :: "string \<Rightarrow> string" where
  "normalize_spec s = strip (sub_ws (replace_nl s))"

text \<open>Dropping the white space at the end only.\<close>

definition rstrip :: "string \<Rightarrow> string" where
  "rstrip s = rev (dropWhile is_space (rev s))"

text \<open>A pattern whose matches are never empty and never run past the end of the text.\<close>

definition proper :: "(string \<Rightarrow> (nat \<times> 'g) option) \<Rightarrow> bool" where
  "proper pat = (\<forall>s n g. pat s = Some (n, g) \<longrightarrow> 0 < n \<and> n \<le> length s)"

text \<open>The pattern matches nowhere in the text.\<close>

definition no_match :: "(string \<Rightarrow> (nat \<times> 'g) option) \<Rightarrow> string \<Rightarrow> bool" where
  "no_match pat text = (\<forall>p. pat (drop p text) = None)"

text \<open>
  Every level number that the parser converts, in the span of every area, has no more
  digits than the limit.
\<close>

definition short_numbers :: "string \<Rightarrow> bool" where
  "short_numbers content =
     (let area_matches = finditer area_pattern 0 content
      in \<forall>im\<in>set (enumerate 0 area_matches).
           \<forall>lm\<in>set (finditer level_pattern 0 (span_text area_matches content im)).
             length (fst (m_groups lm)) \<le> int_max_str_digits)"

text \<open>The spans a pattern cuts a text into, one for each match, in order.\<close>

definition spans :: "(string \<Rightarrow> (nat \<times> 'g) option) \<Rightarrow> string \<Rightarrow> string list" where
  "spans pat text =
     map (span_text (finditer pat 0 text) text) (enumerate 0 (finditer pat 0 text))"

text \<open>The text of a header: the characters of the match itself.\<close>

definition header_text :: "string \<Rightarrow> 'g rmatch \<Rightarrow> string" where
  "header_text text m = chars_at text (m_start m) (m_end m)"

text \<open>The areas filed under an axis number in a list of axes.\<close>

definition areas_of :: "axis_entry list \<Rightarrow> int \<Rightarrow> area_entry list" where
  "areas_of d k = (case find (\<lambda>x. id_axis x = k) d of None \<Rightarrow> [] | Some x \<Rightarrow> areas x)"

text \<open>One pass of the outer loop on the pair that \<open>build_area\<close> returns.\<close>

definition add_pair :: "axis_entry list \<Rightarrow> int \<times> area_entry \<Rightarrow> axis_entry list" where
  "add_pair d ka = add_to_structure d (fst ka) (snd ka)"

text \<open>The buffer of the worked scenario, and a buffer with two area headers.\<close>

definition scenario_buffer :: string where
  "scenario_buffer =
     ''Area 1A. Processes'' @ [nl] @ ''Level 1. Basic'' @ [nl] @ ''some text'' @ [nl]
       @ ''Level 2. Advanced'' @ [nl] @ ''more text'' @ [nl] @ ''Area 1B. Other'' @ [nl]
       @ ''Level 1. X'' @ [nl] @ ''text''"

definition two_areas_buffer :: string where
  "two_areas_buffer = ''Area 2A. x'' @ [nl] @ ''Area 2B. y''"

text \<open>
  The spans and the header texts tile the text after the first header: the text from the
  end of the first match on is the first span followed, for each later match in turn, by
  its header text and its span; every span is the run of characters between the end of
  its match and the end of the span; and a span ends where or before each later match
  starts, so that no two spans overlap.
\<close>

definition tiled :: "(string \<Rightarrow> (nat \<times> 'g) option) \<Rightarrow> string \<Rightarrow> bool" where
  "tiled pat text =
     (let ms = finditer pat 0 text
      in drop (m_end (hd ms)) text
           = hd (spans pat text)
             @ concat (map (\<lambda>im. header_text text (snd im) @ span_text ms text im)
                           (tl (enumerate 0 ms))) \<and>
         (\<forall>i<length ms.
            m_end (ms ! i) \<le> span_end ms text i \<and> span_end ms text i \<le> length text \<and>
            spans pat text ! i = chars_at text (m_end (ms ! i)) (span_end ms text i) \<and>
            (\<forall>j<length ms. i < j \<longrightarrow>
               span_end ms text i \<le> m_start (ms ! j) \<and> m_start (ms ! j) < m_end (ms ! j))))"

text \<open>Further sample texts.\<close>

definition plain_buffer :: string where
  "plain_buffer = ''area 1a. no header''"

definition spaced_buffer :: string where
  "spaced_buffer =
     ''Area 3C. n'' @ [nl] @ ''Level 4. t'' @ [nl] @ ''  d   '' @ [nl, nl] @ '' e  ''"

definition two_levels_text :: string where
  "two_levels_text = ''Level 1. a'' @ [nl] @ ''b'' @ [nl] @ ''Level 2. c''"

definition three_areas_buffer :: string where
  "three_areas_buffer = ''Area 2A. x'' @ [nl] @ ''Area 1A. z'' @ [nl] @ ''Area 2B. y''"

text \<open>A level header whose number has one digit more than the limit.\<close>

definition long_level_text :: string where
  "long_level_text = ''Level '' @ replicate 4301 (CHR ''1'') @ ''.''"

section \<open>White space\<close>

lemma is_space_nl [simp]: "is_space nl" by (simp add: is_space_def nl_def)

lemma is_space_sp [simp]: "is_space sp" by (simp add: is_space_def sp_def)

lemma nl_neq_sp [simp]: "nl \<noteq> sp" "sp \<noteq> nl" by (simp_all add: nl_def sp_def)

lemma linebreak_is_space: "is_linebreak c \<Longrightarrow> is_space c"
  by (auto simp: is_linebreak_def is_space_def)

lemma linebreak_not_sp: "\<not> is_linebreak sp" by (simp add: is_linebreak_def sp_def)

lemma sub_ws_spaces: "c \<in> set (sub_ws s) \<Longrightarrow> is_space c \<Longrightarrow> c = sp"
proof (induction s rule: sub_ws.induct)
  case 1 then show ?case by simp
next
  case (2 c cs) then show ?case by (auto split: if_splits)
qed

lemma sub_ws_hd: "\<not> is_space a \<Longrightarrow> sub_ws (a # cs) = a # sub_ws cs" by simp

lemma dropWhile_hd_not: "dropWhile P xs = y # ys \<Longrightarrow> \<not> P y"
  by (metis hd_dropWhile list.sel(1) list.distinct(1))

lemma sub_ws_no_run: "no_ws_run (sub_ws s)"
proof (induction s rule: sub_ws.induct)
  case 1 show ?case by simp
next
  case (2 c cs)
  show ?case
  proof (cases "is_space c")
    case True
    show ?thesis
    proof (cases "dropWhile is_space cs")
      case Nil
      from True have "sub_ws (c # cs) = sp # sub_ws (dropWhile is_space cs)" by simp
      then have "sub_ws (c # cs) = [sp]" by (simp only: Nil sub_ws.simps)
      then show ?thesis by simp
    next
      case (Cons y ys)
      then have "\<not> is_space y" by (rule dropWhile_hd_not)
      with True Cons 2 show ?thesis by simp
    qed
  next
    case False
    with 2 show ?thesis by (cases cs) auto
  qed
qed

lemma sub_ws_id: "no_ws_run s \<Longrightarrow> \<forall>c\<in>set s. is_space c \<longrightarrow> c = sp \<Longrightarrow> s = [] \<or> \<not> is_space (last s) \<Longrightarrow> sub_ws s = s"
proof (induction s rule: sub_ws.induct)
  case 1 show ?case by simp
next
  case (2 c cs)
  show ?case
  proof (cases "is_space c")
    case True
    with 2 obtain b bs where cs: "cs = b # bs" by (cases cs) auto
    with 2 True have nb: "\<not> is_space b" by simp
    then have dw: "dropWhile is_space cs = cs" using cs by simp
    from 2 True have "c = sp" by simp
    moreover have "sub_ws cs = cs" using 2(1)[OF True] 2(3,4,5) dw cs by auto
    ultimately show ?thesis using True dw by simp
  next
    case False
    have "sub_ws cs = cs" using 2(2)[OF False] 2(3,4,5) by (cases cs) auto
    with False show ?thesis by simp
  qed
qed

lemma sub_ws_Nil: "sub_ws s = [] \<longleftrightarrow> s = []"
  by (cases s) auto

lemma sub_ws_hd_space: "s \<noteq> [] \<Longrightarrow> is_space (hd (sub_ws s)) = is_space (hd s)"
  by (cases s) auto

lemma sub_ws_last_space: "s \<noteq> [] \<Longrightarrow> \<not> is_space (last s) \<Longrightarrow> \<not> is_space (last (sub_ws s))"
proof (induction s rule: sub_ws.induct)
  case 1 then show ?case by simp
next
  case (2 c cs)
  show ?case
  proof (cases "is_space c")
    case True
    with 2 have cs: "cs \<noteq> []" by auto
    have "dropWhile is_space cs \<noteq> []"
    proof
      assume "dropWhile is_space cs = []"
      then have "\<forall>x\<in>set cs. is_space x" by (simp add: dropWhile_eq_Nil_conv)
      with cs have "is_space (last cs)" by simp
      with 2 cs show False by simp
    qed
    moreover have "last (dropWhile is_space cs) = last cs"
      by (metis calculation last_appendR takeWhile_dropWhile_id)
    ultimately show ?thesis using 2 True cs by (simp add: sub_ws_Nil)
  next
    case False
    with 2 show ?thesis by (cases cs) (auto simp: sub_ws_Nil)
  qed
qed

lemma strip_trimmed: "trimmed (strip s)"
proof (cases "strip s = []")
  case True then show ?thesis by (simp add: trimmed_def)
next
  case False
  let ?d = "dropWhile is_space s"
  let ?r = "dropWhile is_space (rev ?d)"
  from False have r: "?r \<noteq> []" by (simp add: strip_def)
  then have "\<not> is_space (hd ?r)" by (rule hd_dropWhile)
  then have l: "\<not> is_space (last (strip s))" using r by (simp add: strip_def last_rev)
  have d: "?d \<noteq> []"
  proof
    assume "?d = []"
    then have "?r = []" by (simp only: rev.simps dropWhile.simps)
    with r show False by simp
  qed
  then have nh: "\<not> is_space (hd ?d)" by (rule hd_dropWhile)
  have "hd (rev ?r) = hd ?d"
  proof -
    have "rev ?d = takeWhile is_space (rev ?d) @ ?r" by simp
    then have "?d = rev ?r @ rev (takeWhile is_space (rev ?d))"
      by (metis rev_append rev_rev_ident)
    then show ?thesis using r by (metis hd_append2 rev_is_Nil_conv)
  qed
  with nh have "\<not> is_space (hd (strip s))" by (simp add: strip_def)
  with l show ?thesis by (simp add: trimmed_def)
qed

lemma strip_id: "trimmed s \<Longrightarrow> strip s = s"
proof (cases s)
  case Nil then show ?thesis by (simp add: strip_def)
next
  case (Cons a as)
  assume "trimmed s"
  with Cons have h: "\<not> is_space (hd s)" and l: "\<not> is_space (last s)" and ne: "s \<noteq> []"
    by (auto simp: trimmed_def)
  have "dropWhile is_space s = s" using h Cons by simp
  moreover have "dropWhile is_space (rev s) = rev s"
    using l ne by (cases "rev s") (auto simp: last_rev hd_rev)
  ultimately show ?thesis by (simp add: strip_def)
qed

lemma replace_nl_id: "nl \<notin> set s \<Longrightarrow> replace_nl s = s"
  by (induction s) (auto simp: replace_nl_def)

lemma lvl_desc_spaces: "c \<in> set (lvl_desc s) \<Longrightarrow> is_space c \<Longrightarrow> c = sp"
  unfolding lvl_desc_def by (rule sub_ws_spaces)

lemma lvl_desc_no_run: "no_ws_run (lvl_desc s)"
  unfolding lvl_desc_def by (rule sub_ws_no_run)

lemma lvl_desc_trimmed: "trimmed (lvl_desc s)"
proof -
  let ?t = "strip (replace_nl s)"
  have t: "trimmed ?t" by (rule strip_trimmed)
  show ?thesis
  proof (cases "?t = []")
    case True then show ?thesis by (simp add: lvl_desc_def trimmed_def)
  next
    case False
    with t have "\<not> is_space (hd ?t)" "\<not> is_space (last ?t)" by (auto simp: trimmed_def)
    with False show ?thesis
      by (simp add: lvl_desc_def trimmed_def sub_ws_hd_space sub_ws_last_space sub_ws_Nil)
  qed
qed

lemma lvl_desc_fixed:
  assumes "\<forall>c\<in>set t. is_space c \<longrightarrow> c = sp" "no_ws_run t" "trimmed t"
  shows "lvl_desc t = t"
proof -
  have "nl \<notin> set t" using assms(1) by auto
  then have "replace_nl t = t" by (rule replace_nl_id)
  moreover have "strip t = t" using assms(3) by (rule strip_id)
  moreover have "sub_ws t = t" using assms by (intro sub_ws_id) (auto simp: trimmed_def)
  ultimately show ?thesis by (simp add: lvl_desc_def)
qed

lemma lvl_desc_idem: "lvl_desc (lvl_desc s) = lvl_desc s"
  by (rule lvl_desc_fixed) (auto intro: lvl_desc_spaces lvl_desc_no_run lvl_desc_trimmed)

subsection \<open>Trimming and collapsing commute\<close>

lemma strip_rstrip: "strip s = rstrip (dropWhile is_space s)"
  by (simp add: strip_def rstrip_def)

lemma rstrip_Nil [simp]: "rstrip [] = []"
  by (simp add: rstrip_def)

lemma rstrip_Cons:
  "rstrip (c # cs) = (if \<forall>x\<in>set (c # cs). is_space x then [] else c # rstrip cs)"
  by (auto simp: rstrip_def dropWhile_append dropWhile_eq_Nil_conv)

lemma dropWhile_sub_ws_fixed:
  "s = [] \<or> \<not> is_space (hd s) \<Longrightarrow> dropWhile is_space (sub_ws s) = sub_ws s"
  by (cases s) auto

lemma dropWhile_head: "dropWhile P xs = [] \<or> \<not> P (hd (dropWhile P xs))"
  using hd_dropWhile by blast

lemma lstrip_sub_ws: "dropWhile is_space (sub_ws s) = sub_ws (dropWhile is_space s)"
proof (cases s)
  case Nil then show ?thesis by simp
next
  case (Cons c cs)
  show ?thesis
  proof (cases "is_space c")
    case True
    with Cons show ?thesis
      using dropWhile_sub_ws_fixed[OF dropWhile_head[of is_space cs]] by simp
  next
    case False with Cons show ?thesis by simp
  qed
qed

lemma lstrip_rstrip: "dropWhile is_space (rstrip s) = rstrip (dropWhile is_space s)"
proof (induction s)
  case Nil show ?case by simp
next
  case (Cons c cs)
  show ?case
  proof (cases "\<forall>x\<in>set (c # cs). is_space x")
    case True
    then have d: "dropWhile is_space (c # cs) = []"
      using dropWhile_eq_Nil_conv[of is_space "c # cs"] by blast
    from True have l: "rstrip (c # cs) = []" by (simp add: rstrip_Cons)
    show ?thesis unfolding l d by simp
  next
    case False
    then have r: "rstrip (c # cs) = c # rstrip cs" by (simp add: rstrip_Cons)
    show ?thesis
    proof (cases "is_space c")
      case True with r Cons.IH show ?thesis by simp
    next
      case False with r show ?thesis by simp
    qed
  qed
qed

lemma sub_ws_all_space:
  "s = [] \<or> \<not> is_space (hd s) \<Longrightarrow> (\<forall>x\<in>set (sub_ws s). is_space x) \<longleftrightarrow> s = []"
  by (cases s) auto

lemma rstrip_sub_ws: "rstrip (sub_ws s) = sub_ws (rstrip s)"
proof (induction s rule: sub_ws.induct)
  case 1 show ?case by simp
next
  case (2 c cs)
  show ?case
  proof (cases "is_space c")
    case True
    let ?u = "dropWhile is_space cs"
    note ih = 2(1)[OF True]
    show ?thesis
    proof (cases "?u = []")
      case e: True
      then have all: "\<forall>x\<in>set cs. is_space x"
        using dropWhile_eq_Nil_conv[of is_space cs] by blast
      have "sub_ws (c # cs) = sp # sub_ws ?u" using True by simp
      then have "sub_ws (c # cs) = [sp]" by (simp only: e sub_ws.simps)
      moreover have "rstrip (c # cs) = []" using all True by (simp add: rstrip_Cons)
      ultimately show ?thesis by (simp add: rstrip_Cons)
    next
      case ne: False
      then have nall: "\<not> (\<forall>x\<in>set cs. is_space x)"
        using dropWhile_eq_Nil_conv[of is_space cs] by blast
      have "\<not> (\<forall>x\<in>set (sub_ws ?u). is_space x)"
        using sub_ws_all_space[OF dropWhile_head[of is_space cs]] ne by simp
      then have "rstrip (sub_ws (c # cs)) = sp # rstrip (sub_ws ?u)"
        using True by (simp add: rstrip_Cons)
      also have "\<dots> = sp # sub_ws (rstrip ?u)" by (simp only: ih)
      also have "\<dots> = sp # sub_ws (dropWhile is_space (rstrip cs))"
        by (simp only: lstrip_rstrip)
      also have "\<dots> = sub_ws (c # rstrip cs)" using True by simp
      also have "\<dots> = sub_ws (rstrip (c # cs))" using nall by (auto simp: rstrip_Cons)
      finally show ?thesis .
    qed
  next
    case False
    note ih = 2(2)[OF False]
    from False have "rstrip (sub_ws (c # cs)) = c # rstrip (sub_ws cs)"
      by (auto simp: rstrip_Cons)
    also have "\<dots> = sub_ws (c # rstrip cs)" using False ih by simp
    also have "\<dots> = sub_ws (rstrip (c # cs))" using False by (auto simp: rstrip_Cons)
    finally show ?thesis .
  qed
qed

lemma strip_sub_ws: "strip (sub_ws s) = sub_ws (strip s)"
  by (simp add: strip_rstrip lstrip_sub_ws rstrip_sub_ws)

lemma normalize_spec_eq: "normalize_spec s = lvl_desc s"
  by (simp add: normalize_spec_def lvl_desc_def strip_sub_ws)

section \<open>The patterns are what the backtracking matcher returns\<close>

lemma emit_None [simp]: "emit cap txt None = None"
  by (simp add: emit_def)

lemma emit_Some [simp]:
  "emit cap txt (Some (k, gs)) = Some (length txt + k, if cap then txt # gs else gs)"
  by (simp add: emit_def)

lemma space_not_digit: "is_space c \<Longrightarrow> \<not> is_digit c"
  by (auto simp: is_space_def is_digit_def)

lemma space_not_dot: "is_space c \<Longrightarrow> c \<noteq> CHR ''.''"
  by (auto simp: is_space_def)

lemma digit_not_dot: "is_digit c \<Longrightarrow> c \<noteq> CHR ''.''"
  by (auto simp: is_digit_def)

lemma bt_rep_fail:
  "(\<And>m. lo \<le> m \<Longrightarrow> m \<le> n \<Longrightarrow> bt r (drop m s) = None) \<Longrightarrow> bt_rep cap r lo n s = None"
proof (induction n)
  case 0 then show ?case by (subst bt_rep.simps) simp
next
  case (Suc n)
  have "bt_rep cap r lo n s = None" using Suc.prems by (intro Suc.IH) simp
  moreover have "lo \<le> Suc n \<Longrightarrow> bt r (drop (Suc n) s) = None" using Suc.prems by simp
  ultimately show ?case by (subst bt_rep.simps) (simp del: drop_Suc)
qed

lemma bt_rep_top:
  assumes "lo \<le> n" and "\<And>m. lo \<le> m \<Longrightarrow> m < n \<Longrightarrow> bt r (drop m s) = None"
  shows "bt_rep cap r lo n s = emit cap (take n s) (bt r (drop n s))"
proof (cases "emit cap (take n s) (bt r (drop n s))")
  case (Some x) with assms(1) show ?thesis by (subst bt_rep.simps) simp
next
  case None
  show ?thesis
  proof (cases n)
    case 0 with None show ?thesis by (subst bt_rep.simps) simp
  next
    case (Suc k)
    have "bt_rep cap r lo k s = None" using assms(2) Suc by (intro bt_rep_fail) simp
    with None Suc assms(1) show ?thesis by (subst bt_rep.simps) simp
  qed
qed

lemma drop_in_run:
  assumes "m < length (takeWhile P s)"
  shows "\<exists>c t. drop m s = c # t \<and> P c"
proof -
  from assms have m: "m < length s" using length_takeWhile_le[of P s] by simp
  have "P (s ! m)" using assms by (metis nth_mem set_takeWhileD takeWhile_nth)
  with m show ?thesis by (metis Cons_nth_drop_Suc)
qed

lemma bt_rep_run:
  assumes "\<And>c t. P c \<Longrightarrow> bt r (c # t) = None" and "lo \<le> length (takeWhile P s)"
  shows "bt_rep cap r lo (length (takeWhile P s)) s
           = emit cap (takeWhile P s) (bt r (dropWhile P s))"
proof -
  have "bt r (drop m s) = None" if "m < length (takeWhile P s)" for m
    using drop_in_run[OF that] assms(1) by auto
  from bt_rep_top[OF assms(2), of r s cap] this
  show ?thesis by (simp add: takeWhile_eq_take[symmetric] dropWhile_eq_drop[symmetric])
qed

lemma bt_rep_short: "n < lo \<Longrightarrow> bt_rep cap r lo n s = None"
  by (subst bt_rep.simps) simp

lemma bt_last_star:
  "bt [(True, Star P)] s = Some (length (takeWhile P s), [takeWhile P s])"
proof -
  have "bt_rep True [] 0 (length (takeWhile P s)) s
          = emit True (take (length (takeWhile P s)) s) (bt [] (drop (length (takeWhile P s)) s))"
    by (subst bt_rep.simps) simp
  then show ?thesis by (simp add: takeWhile_eq_take[symmetric])
qed

lemma bt_space_rest:
  "bt_rep False [(True, Star P)] 0 (length (takeWhile is_space s)) s
     = Some (length (takeWhile is_space s) + length (takeWhile P (dropWhile is_space s)),
             [takeWhile P (dropWhile is_space s)])"
proof -
  let ?n = "length (takeWhile is_space s)"
  let ?x = "(?n + length (takeWhile P (dropWhile is_space s)),
             [takeWhile P (dropWhile is_space s)])"
  have "take ?n s = takeWhile is_space s" by (simp add: takeWhile_eq_take[symmetric])
  then have e: "emit False (take ?n s) (bt [(True, Star P)] (drop ?n s)) = Some ?x"
    unfolding bt_last_star by (simp add: dropWhile_eq_drop[symmetric])
  show ?thesis by (subst bt_rep.simps) (simp only: e, simp)
qed

lemma not_nl_eq: "not_nl = (\<lambda>c. c \<noteq> nl)"
  by (simp add: not_nl_def fun_eq_iff)

lemma area_pattern_regex:
  "bt area_regex s = map_option (\<lambda>(n, a, b, c). (n, [a, b, c])) (area_pattern s)"
proof (cases "lit ''Area '' s")
  case None
  then show ?thesis by (simp add: area_regex_def area_pattern_def lit_def split: if_splits)
next
  case (Some s1)
  then have l: "take (length ''Area '') s = ''Area ''" "drop (length ''Area '') s = s1"
    by (auto simp: lit_def split: if_splits)
  show ?thesis
  proof (cases s1)
    case Nil with Some l show ?thesis by (simp add: area_regex_def area_pattern_def)
  next
    case c1: (Cons d t1)
    show ?thesis
    proof (cases t1)
      case Nil with Some l c1 show ?thesis by (simp add: area_regex_def area_pattern_def)
    next
      case c2: (Cons u t2)
      show ?thesis
      proof (cases t2)
        case Nil with Some l c1 c2 show ?thesis by (simp add: area_regex_def area_pattern_def)
      next
        case c3: (Cons p s2)
        from Some l c1 c2 c3 show ?thesis
          by (simp add: area_regex_def area_pattern_def bt_space_rest Let_def not_nl_eq)
      qed
    qed
  qed
qed

lemma digit_not_space: "is_digit c \<Longrightarrow> \<not> is_space c"
  using space_not_digit by blast

lemma bt_dot_space: "is_space c \<Longrightarrow> bt ((False, Lit ''.'') # r) (c # t) = None"
  by (simp add: space_not_dot)

lemma bt_space_dot_digit:
  "is_digit c \<Longrightarrow> bt ((False, Star is_space) # (False, Lit ''.'') # r) (c # t) = None"
proof -
  assume d: "is_digit c"
  then have "takeWhile is_space (c # t) = []" by (simp add: digit_not_space)
  moreover have "bt_rep False ((False, Lit ''.'') # r) 0 0 (c # t) = None"
    using d by (subst bt_rep.simps) (simp add: digit_not_dot)
  ultimately show ?thesis by simp
qed

lemma bt_digits_space: "is_space c \<Longrightarrow> bt ((True, Plus is_digit) # r) (c # t) = None"
  by (simp add: space_not_digit bt_rep_short)

lemma level_pattern_regex:
  "bt level_regex s = map_option (\<lambda>(n, a, b). (n, [a, b])) (level_pattern s)"
proof (cases "lit ''Level'' s")
  case None
  then show ?thesis by (simp add: level_regex_def level_pattern_def lit_def split: if_splits)
next
  case (Some s1)
  then have l: "take (length ''Level'') s = ''Level''" "drop (length ''Level'') s = s1"
    by (auto simp: lit_def split: if_splits)
  define R4 where "R4 = [(False, Star is_space), (True, Star not_nl)]"
  define R3 where "R3 = (False, Lit ''.'') # R4"
  define R2 where "R2 = (False, Star is_space) # R3"
  define R1 where "R1 = (True, Plus is_digit) # R2"
  define s2 where "s2 = dropWhile is_space s1"
  define num where "num = takeWhile is_digit s2"
  define s3 where "s3 = dropWhile is_digit s2"
  define s4 where "s4 = dropWhile is_space s3"
  have top: "bt level_regex s = emit False ''Level'' (bt ((False, Star is_space) # R1) s1)"
    using l by (simp add: level_regex_def R1_def R2_def R3_def R4_def)
  have b1: "bt ((False, Star is_space) # R1) s1 = emit False (takeWhile is_space s1) (bt R1 s2)"
    unfolding s2_def using bt_rep_run[of is_space R1 0 s1 False] bt_digits_space
    by (simp add: R1_def)
  have b2: "bt R1 s2 = (if num = [] then None else emit True num (bt R2 s3))"
  proof (cases "num = []")
    case True
    then show ?thesis by (simp add: R1_def num_def bt_rep_short)
  next
    case False
    then have "1 \<le> length (takeWhile is_digit s2)" by (cases num) (auto simp: num_def)
    from bt_rep_run[of is_digit R2 1 s2 True, OF _ this] bt_space_dot_digit False
    show ?thesis by (simp add: R1_def R2_def R3_def num_def s3_def)
  qed
  have b3: "bt R2 s3 = emit False (takeWhile is_space s3) (bt R3 s4)"
    unfolding s4_def using bt_rep_run[of is_space R3 0 s3 False] bt_dot_space
    by (simp add: R2_def R3_def)
  have b4: "bt R3 s4 =
      (case s4 of [] \<Rightarrow> None
       | p # s5 \<Rightarrow> if p \<noteq> CHR ''.'' then None
           else Some (1 + length (takeWhile is_space s5)
                        + length (takeWhile not_nl (dropWhile is_space s5)),
                      [takeWhile not_nl (dropWhile is_space s5)]))"
    by (cases s4) (auto simp: R3_def R4_def bt_space_rest)
  show ?thesis
    unfolding top b1 b2 b3 b4
    using Some
    by (auto simp: level_pattern_def Let_def s2_def[symmetric] num_def[symmetric]
        s3_def[symmetric] s4_def[symmetric] not_nl_eq split: list.splits)
qed

section \<open>Matches\<close>

lemma lit_Some: "lit w s = Some r \<Longrightarrow> s = w @ r"
  by (auto simp: lit_def split: if_splits) (metis append_take_drop_id)

lemma length_takeWhile_dropWhile: "length (takeWhile P xs) + length (dropWhile P xs) = length xs"
  by (metis length_append takeWhile_dropWhile_id)

lemma area_pattern_proper: "proper area_pattern"
  unfolding proper_def
proof (intro allI impI)
  fix s n g assume a: "area_pattern s = Some (n, g)"
  then obtain s1 where s1: "lit ''Area '' s = Some s1"
    by (auto simp: area_pattern_def split: option.splits)
  then have s: "s = ''Area '' @ s1" by (rule lit_Some)
  from a s1 obtain d l p s2 where s2: "s1 = d # l # p # s2"
    by (auto simp: area_pattern_def split: list.splits)
  from a s1 s2 have n: "n = 8 + length (takeWhile is_space s2)
        + length (takeWhile (\<lambda>c. c \<noteq> nl) (dropWhile is_space s2))"
    by (auto simp: area_pattern_def Let_def split: if_splits)
  have "length (takeWhile (\<lambda>c. c \<noteq> nl) (dropWhile is_space s2)) \<le> length (dropWhile is_space s2)"
    by (rule length_takeWhile_le)
  with length_takeWhile_dropWhile[of is_space s2]
  have "n \<le> 8 + length s2" using n by linarith
  moreover have "length s = 8 + length s2" using s s2 by simp
  ultimately show "0 < n \<and> n \<le> length s" using n by simp
qed

lemma area_pattern_groups:
  "area_pattern s = Some (n, g) \<Longrightarrow> \<exists>d l r. g = ([d], [l], r) \<and> is_digit d \<and> is_upper l"
  by (auto simp: area_pattern_def Let_def split: option.splits list.splits if_splits)

lemma level_pattern_groups:
  "level_pattern s = Some (n, g) \<Longrightarrow> fst g \<noteq> [] \<and> list_all is_digit (fst g)"
  by (auto simp: level_pattern_def Let_def list_all_iff split: option.splits list.splits if_splits
      dest: set_takeWhileD)

lemma level_pattern_proper: "proper level_pattern"
  unfolding proper_def
proof (intro allI impI)
  fix s n g assume a: "level_pattern s = Some (n, g)"
  then obtain s1 where s1: "lit ''Level'' s = Some s1"
    by (auto simp: level_pattern_def split: option.splits)
  then have s: "s = ''Level'' @ s1" by (rule lit_Some)
  define s2 where "s2 = dropWhile is_space s1"
  define s3 where "s3 = dropWhile is_digit s2"
  define s4 where "s4 = dropWhile is_space s3"
  from a s1 obtain p s5 where s5: "s4 = p # s5"
    by (auto simp: level_pattern_def Let_def s2_def s3_def s4_def split: list.splits if_splits)
  define s6 where "s6 = dropWhile is_space s5"
  from a s1 s5 have n: "n = 5 + length (takeWhile is_space s1) + length (takeWhile is_digit s2)
       + length (takeWhile is_space s3) + 1 + length (takeWhile is_space s5)
       + length (takeWhile (\<lambda>c. c \<noteq> nl) s6)"
    by (auto simp: level_pattern_def Let_def s2_def s3_def s4_def s6_def split: list.splits if_splits)
  have "length (takeWhile (\<lambda>c. c \<noteq> nl) s6) \<le> length s6" by (rule length_takeWhile_le)
  moreover have "length (takeWhile is_space s5) + length s6 = length s5"
    unfolding s6_def by (rule length_takeWhile_dropWhile)
  moreover have "length (takeWhile is_space s3) + length s4 = length s3"
    unfolding s4_def by (rule length_takeWhile_dropWhile)
  moreover have "length (takeWhile is_digit s2) + length s3 = length s2"
    unfolding s3_def by (rule length_takeWhile_dropWhile)
  moreover have "length (takeWhile is_space s1) + length s2 = length s1"
    unfolding s2_def by (rule length_takeWhile_dropWhile)
  moreover have "length s4 = 1 + length s5" using s5 by simp
  moreover have "length s = 5 + length s1" using s by simp
  ultimately show "0 < n \<and> n \<le> length s" using n by linarith
qed

lemma finditer_facts:
  "proper pat \<Longrightarrow> m \<in> set (finditer pat pos s) \<Longrightarrow>
      pos \<le> m_start m \<and> m_start m < m_end m \<and> m_end m \<le> pos + length s \<and>
      pat (drop (m_start m - pos) s) = Some (m_end m - m_start m, m_groups m)"
proof (induction pat pos s rule: finditer.induct)
  case (1 pat pos s)
  note pr = 1(3) and mem = 1(4)
  show ?case
  proof (cases "s = []")
    case True with mem show ?thesis by (simp add: finditer.simps)
  next
    case False
    show ?thesis
    proof (cases "pat s")
      case None
      with False mem have "m \<in> set (finditer pat (Suc pos) (tl s))"
        by (subst (asm) finditer.simps) simp
      from 1(1)[OF False None pr this]
      have ih: "Suc pos \<le> m_start m" "m_start m < m_end m"
        "m_end m \<le> Suc pos + length (tl s)"
        "pat (drop (m_start m - Suc pos) (tl s)) = Some (m_end m - m_start m, m_groups m)"
        by simp_all
      from ih(1) have "m_start m - pos = Suc (m_start m - Suc pos)" by arith
      then have "drop (m_start m - pos) s = drop (m_start m - Suc pos) (tl s)"
        by (simp add: drop_Suc)
      with ih False show ?thesis by simp
    next
      case (Some ng)
      obtain n g where ng: "ng = (n, g)" by (cases ng)
      with Some pr have n: "0 < n" "n \<le> length s" by (auto simp: proper_def)
      from mem False Some ng n
      consider "m = \<lparr>m_start = pos, m_end = pos + n, m_groups = g\<rparr>"
        | "m \<in> set (finditer pat (pos + n) (drop n s))"
        by (subst (asm) finditer.simps) auto
      then show ?thesis
      proof cases
        case 1 with Some ng n show ?thesis by simp
      next
        case 2
        have "n \<noteq> 0" using n by simp
        from 1(2)[OF False Some ng[symmetric] this pr 2]
        have ih: "pos + n \<le> m_start m" "m_start m < m_end m"
          "m_end m \<le> pos + n + length (drop n s)"
          "pat (drop (m_start m - (pos + n)) (drop n s)) = Some (m_end m - m_start m, m_groups m)"
          by blast+
        from ih(1) have "m_start m - (pos + n) + n = m_start m - pos" by arith
        then have "drop (m_start m - (pos + n)) (drop n s) = drop (m_start m - pos) s"
          by (simp only: drop_drop)
        with ih(4) have "pat (drop (m_start m - pos) s) = Some (m_end m - m_start m, m_groups m)"
          by (simp only:)
        moreover from ih(3) n have "m_end m \<le> pos + length s" by simp
        moreover from ih(1) have "pos \<le> m_start m" by simp
        ultimately show ?thesis using ih(2) by simp
      qed
    qed
  qed
qed

lemma finditer_sorted:
  "proper pat \<Longrightarrow> sorted_wrt (\<lambda>a b. m_end a \<le> m_start b) (finditer pat pos s)"
proof (induction pat pos s rule: finditer.induct)
  case (1 pat pos s)
  note pr = 1(3)
  show ?case
  proof (cases "s = []")
    case True then show ?thesis by (simp add: finditer.simps)
  next
    case False
    show ?thesis
    proof (cases "pat s")
      case None
      with False 1(1)[OF False None pr] show ?thesis by (subst finditer.simps) simp
    next
      case (Some ng)
      obtain n g where ng: "ng = (n, g)" by (cases ng)
      with Some pr have n: "0 < n" "n \<le> length s" by (auto simp: proper_def)
      then have n0: "n \<noteq> 0" by simp
      have eq: "finditer pat pos s = \<lparr>m_start = pos, m_end = pos + n, m_groups = g\<rparr>
                    # finditer pat (pos + n) (drop n s)"
        using False Some ng n0 by (subst finditer.simps) simp
      have "\<forall>m\<in>set (finditer pat (pos + n) (drop n s)). pos + n \<le> m_start m"
        using finditer_facts[OF pr] by blast
      with 1(2)[OF False Some ng[symmetric] n0 pr] show ?thesis
        unfolding eq by simp
    qed
  qed
qed

lemma finditer_none: "no_match pat s \<Longrightarrow> finditer pat pos s = []"
proof (induction pat pos s rule: finditer.induct)
  case (1 pat pos s)
  show ?case
  proof (cases "s = []")
    case True then show ?thesis by (simp add: finditer.simps)
  next
    case False
    from 1(3) have "pat (drop 0 s) = None" unfolding no_match_def by blast
    then have None: "pat s = None" by simp
    have "no_match pat (tl s)"
      unfolding no_match_def
    proof
      fix p have "drop p (tl s) = drop (Suc p) s" by (simp add: drop_Suc)
      with 1(3) show "pat (drop p (tl s)) = None" by (simp add: no_match_def)
    qed
    from 1(1)[OF False None this] False None show ?thesis by (subst finditer.simps) simp
  qed
qed

lemma finditer_Nil_no_match:
  "proper pat \<Longrightarrow> finditer pat pos s = [] \<Longrightarrow> no_match pat s"
proof (induction pat pos s rule: finditer.induct)
  case (1 pat pos s)
  note pr = 1(3) and e = 1(4)
  show ?case
  proof (cases "s = []")
    case True
    have "pat [] = None"
    proof (cases "pat []")
      case (Some ng)
      obtain n g where "ng = (n, g)" by (cases ng)
      with Some have "pat [] = Some (n, g)" by simp
      with pr have "0 < n \<and> n \<le> length ([] :: string)" unfolding proper_def by blast
      then have False by auto
      then show ?thesis ..
    qed simp
    with True show ?thesis by (simp add: no_match_def)
  next
    case False
    show ?thesis
    proof (cases "pat s")
      case None
      with False e have "finditer pat (Suc pos) (tl s) = []"
        by (subst (asm) finditer.simps) simp
      from 1(1)[OF False None pr this] have nm: "no_match pat (tl s)" .
      show ?thesis unfolding no_match_def
      proof
        fix p show "pat (drop p s) = None"
        proof (cases p)
          case 0 with None show ?thesis by simp
        next
          case (Suc q)
          then have "drop p s = drop q (tl s)" by (simp add: drop_Suc)
          with nm show ?thesis by (simp add: no_match_def)
        qed
      qed
    next
      case (Some ng)
      obtain n g where ng: "ng = (n, g)" by (cases ng)
      with Some pr have n: "n \<noteq> 0" by (auto simp: proper_def)
      with e False Some ng show ?thesis by (subst (asm) finditer.simps) simp
    qed
  qed
qed

lemma for_each_build:
  "map mk xs = map Inr vs \<Longrightarrow>
     for_each (\<lambda>st x. bind_e (mk x) (\<lambda>v. Inr (upd st v))) xs st = Inr (foldl upd st vs)"
proof (induction xs arbitrary: vs st)
  case Nil then show ?case by simp
next
  case (Cons x xs)
  then obtain v vs' where vs: "vs = v # vs'" and mk: "mk x = Inr v"
    and rest: "map mk xs = map Inr vs'" by (cases vs) auto
  from Cons.IH[OF rest] show ?case by (simp add: vs mk bind_e_def)
qed

lemma all_Inr_ex:
  "(\<forall>x\<in>set xs. \<exists>v. mk x = Inr v) \<Longrightarrow> \<exists>vs. map mk xs = map Inr vs"
proof (induction xs)
  case Nil show ?case by simp
next
  case (Cons x xs)
  then obtain v vs where "mk x = Inr v" "map mk xs = map Inr vs" by auto
  then have "map mk (x # xs) = map Inr (v # vs)" by simp
  then show ?case by blast
qed

lemma set_enumerate_0: "(i, m) \<in> set (enumerate 0 ms) \<Longrightarrow> i < length ms \<and> m = ms ! i"
  by (auto simp: in_set_enumerate_eq)

section \<open>When the loops return\<close>

lemma for_each_inv:
  "for_each (\<lambda>st x. bind_e (mk x) (\<lambda>v. Inr (upd st v))) xs st = Inr st' \<Longrightarrow>
     \<exists>vs. map mk xs = map Inr vs \<and> st' = foldl upd st vs"
proof (induction xs arbitrary: st)
  case Nil then show ?case by simp
next
  case (Cons x xs)
  show ?case
  proof (cases "mk x")
    case (Inl e)
    with Cons.prems show ?thesis by (simp add: bind_e_def)
  next
    case (Inr v)
    with Cons.prems
    have "for_each (\<lambda>st x. bind_e (mk x) (\<lambda>v. Inr (upd st v))) xs (upd st v) = Inr st'"
      by (simp add: bind_e_def)
    from Cons.IH[OF this] obtain vs where
      "map mk xs = map Inr vs" "st' = foldl upd (upd st v) vs" by blast
    with Inr have "map mk (x # xs) = map Inr (v # vs) \<and> st' = foldl upd st (v # vs)" by simp
    then show ?thesis by blast
  qed
qed

lemma for_each_returns_iff:
  "(\<exists>st'. for_each (\<lambda>st x. bind_e (mk x) (\<lambda>v. Inr (upd st v))) xs st = Inr st')
     \<longleftrightarrow> (\<forall>x\<in>set xs. \<exists>v. mk x = Inr v)"
proof
  assume "\<exists>st'. for_each (\<lambda>st x. bind_e (mk x) (\<lambda>v. Inr (upd st v))) xs st = Inr st'"
  then obtain st' where
    "for_each (\<lambda>st x. bind_e (mk x) (\<lambda>v. Inr (upd st v))) xs st = Inr st'" ..
  from for_each_inv[OF this] obtain vs where m: "map mk xs = map Inr vs" by blast
  show "\<forall>x\<in>set xs. \<exists>v. mk x = Inr v"
  proof
    fix x assume "x \<in> set xs"
    then have "mk x \<in> set (map mk xs)" by simp
    then have "mk x \<in> set (map Inr vs)" by (simp only: m)
    then show "\<exists>v. mk x = Inr v" by auto
  qed
next
  assume "\<forall>x\<in>set xs. \<exists>v. mk x = Inr v"
  then obtain vs where "map mk xs = map Inr vs" using all_Inr_ex by blast
  from for_each_build[OF this, of upd st]
  show "\<exists>st'. for_each (\<lambda>st x. bind_e (mk x) (\<lambda>v. Inr (upd st v))) xs st = Inr st'"
    by (rule exI)
qed

lemma py_int_returns_iff:
  "(\<exists>k. py_int s = Inr k) \<longleftrightarrow> s \<noteq> [] \<and> list_all is_digit s \<and> length s \<le> int_max_str_digits"
  by (simp add: py_int_def)

lemma py_int_over_limit: "py_int (replicate 4301 (CHR ''1'')) = Inl ValueError"
  by (simp add: py_int_def int_max_str_digits_def)

subsection \<open>One level\<close>

lemma build_level_inv:
  assumes "build_level t lms (j, m) = Inr l"
  shows "py_int (fst (m_groups m)) = Inr (level l)"
    and "title l = strip (snd (m_groups m))"
    and "description l = lvl_desc (span_text lms t (j, m))"
  using assms
  by (auto simp: build_level_def bind_e_def Let_def split: sum.splits)

lemma build_level_returns_iff:
  assumes "m \<in> set (finditer level_pattern pos t)"
  shows "(\<exists>l. build_level t' lms (j, m) = Inr l)
           \<longleftrightarrow> length (fst (m_groups m)) \<le> int_max_str_digits"
proof -
  from finditer_facts[OF level_pattern_proper assms]
  obtain u n where "level_pattern u = Some (n, m_groups m)" by blast
  then have d: "fst (m_groups m) \<noteq> [] \<and> list_all is_digit (fst (m_groups m))"
    by (rule level_pattern_groups)
  have "(\<exists>l. build_level t' lms (j, m) = Inr l) \<longleftrightarrow> (\<exists>k. py_int (fst (m_groups m)) = Inr k)"
    by (auto simp: build_level_def bind_e_def Let_def split: sum.splits)
  with d show ?thesis by (simp add: py_int_returns_iff)
qed

subsection \<open>The levels of a text\<close>

lemma append_fold: "foldl (\<lambda>lvls l. lvls @ [l]) acc ls = acc @ ls"
  by (induction ls arbitrary: acc) auto

lemma parse_levels_inv:
  assumes "parse_levels t = Inr ls"
  shows "map (build_level t (finditer level_pattern 0 t))
             (enumerate 0 (finditer level_pattern 0 t)) = map Inr ls"
proof -
  from assms have "for_each
       (\<lambda>lvls jm. bind_e (build_level t (finditer level_pattern 0 t) jm)
                     (\<lambda>l. Inr (lvls @ [l])))
       (enumerate 0 (finditer level_pattern 0 t)) [] = Inr ls"
    by (simp add: parse_levels_def Let_def)
  from for_each_inv[OF this]
  obtain vs where "map (build_level t (finditer level_pattern 0 t))
             (enumerate 0 (finditer level_pattern 0 t)) = map Inr vs"
    and "ls = foldl (\<lambda>lvls l. lvls @ [l]) [] vs" by blast
  then show ?thesis by (simp add: append_fold)
qed

lemma parse_levels_returns_iff:
  "(\<exists>ls. parse_levels t = Inr ls)
     \<longleftrightarrow> (\<forall>lm\<in>set (finditer level_pattern 0 t). length (fst (m_groups lm)) \<le> int_max_str_digits)"
proof -
  let ?lms = "finditer level_pattern 0 t"
  have "(\<exists>ls. parse_levels t = Inr ls)
      \<longleftrightarrow> (\<forall>jm\<in>set (enumerate 0 ?lms). \<exists>l. build_level t ?lms jm = Inr l)"
    unfolding parse_levels_def Let_def by (rule for_each_returns_iff)
  also have "\<dots> \<longleftrightarrow> (\<forall>lm\<in>set ?lms. length (fst (m_groups lm)) \<le> int_max_str_digits)"
  proof
    assume a: "\<forall>jm\<in>set (enumerate 0 ?lms). \<exists>l. build_level t ?lms jm = Inr l"
    show "\<forall>lm\<in>set ?lms. length (fst (m_groups lm)) \<le> int_max_str_digits"
    proof
      fix lm assume lm: "lm \<in> set ?lms"
      then obtain j where "j < length ?lms" "lm = ?lms ! j" by (auto simp: in_set_conv_nth)
      then have "(j, lm) \<in> set (enumerate 0 ?lms)" by (simp add: in_set_enumerate_eq)
      with a have "\<exists>l. build_level t ?lms (j, lm) = Inr l" by blast
      with build_level_returns_iff[OF lm] show "length (fst (m_groups lm)) \<le> int_max_str_digits"
        by blast
    qed
  next
    assume a: "\<forall>lm\<in>set ?lms. length (fst (m_groups lm)) \<le> int_max_str_digits"
    show "\<forall>jm\<in>set (enumerate 0 ?lms). \<exists>l. build_level t ?lms jm = Inr l"
    proof
      fix jm assume jm: "jm \<in> set (enumerate 0 ?lms)"
      obtain j m where e: "jm = (j, m)" by (cases jm)
      with jm have m: "m \<in> set ?lms" by (auto simp: in_set_enumerate_eq)
      with a build_level_returns_iff[OF m] e show "\<exists>l. build_level t ?lms jm = Inr l"
        by blast
    qed
  qed
  finally show ?thesis .
qed

lemma parse_levels_no_match: "no_match level_pattern t \<Longrightarrow> parse_levels t = Inr []"
  by (simp add: parse_levels_def finditer_none)

subsection \<open>One area\<close>

lemma build_area_inv:
  assumes "build_area content ms (i, m) = Inr ka"
  shows "py_int (fst (m_groups m)) = Inr (fst ka)"
    and "id_area (snd ka) = py_str (fst ka) @ fst (snd (m_groups m))"
    and "name_area (snd ka) = strip (snd (snd (m_groups m)))"
    and "parse_levels (span_text ms content (i, m)) = Inr (levels (snd ka))"
  using assms
  by (auto simp: build_area_def bind_e_def Let_def split: sum.splits)

lemma axis_number_converts:
  assumes "m \<in> set (finditer area_pattern pos t)"
  shows "\<exists>k. py_int (fst (m_groups m)) = Inr k"
proof -
  from finditer_facts[OF area_pattern_proper assms]
  obtain u n where "area_pattern u = Some (n, m_groups m)" by blast
  then obtain d l r where "m_groups m = ([d], [l], r)" "is_digit d"
    using area_pattern_groups by blast
  then show ?thesis by (simp add: py_int_returns_iff int_max_str_digits_def)
qed

lemma build_area_returns_iff:
  assumes "m \<in> set (finditer area_pattern pos t)"
  shows "(\<exists>ka. build_area content ms (i, m) = Inr ka)
           \<longleftrightarrow> (\<exists>ls. parse_levels (span_text ms content (i, m)) = Inr ls)"
proof -
  from axis_number_converts[OF assms] obtain k where "py_int (fst (m_groups m)) = Inr k" ..
  then show ?thesis
    by (auto simp: build_area_def bind_e_def Let_def split: sum.splits)
qed

lemma build_area_no_levels:
  assumes "m \<in> set (finditer area_pattern pos t)"
    and "no_match level_pattern (span_text ms content (i, m))"
  shows "\<exists>k. build_area content ms (i, m)
              = Inr (k, \<lparr>id_area = py_str k @ fst (snd (m_groups m)),
                         name_area = strip (snd (snd (m_groups m))), levels = []\<rparr>)"
proof -
  from axis_number_converts[OF assms(1)] obtain k where "py_int (fst (m_groups m)) = Inr k" ..
  with parse_levels_no_match[OF assms(2)] show ?thesis
    by (simp add: build_area_def bind_e_def Let_def)
qed

section \<open>The list of axes\<close>

lemma ids_append_area: "map id_axis (append_area k a d) = map id_axis d"
  by (induction d) auto

lemma areas_of_append_area:
  "areas_of (append_area k a d) k' =
     (if k = k' \<and> k \<in> set (map id_axis d) then areas_of d k' @ [a] else areas_of d k')"
  by (induction d) (auto simp: areas_of_def)

lemma find_None_ids: "find (\<lambda>x. id_axis x = k) d = None \<longleftrightarrow> k \<notin> set (map id_axis d)"
  by (induction d) auto

lemma areas_of_snoc:
  "areas_of (d @ [x]) k' = (if k' \<in> set (map id_axis d) then areas_of d k'
                            else if id_axis x = k' then areas x else [])"
  by (induction d) (auto simp: areas_of_def)

lemma areas_of_absent: "k \<notin> set (map id_axis d) \<Longrightarrow> areas_of d k = []"
  by (induction d) (auto simp: areas_of_def)

lemma add_pair_unfold:
  "add_pair d ka =
     (if fst ka \<in> set (map id_axis d) then append_area (fst ka) (snd ka) d
      else append_area (fst ka) (snd ka)
             (d @ [\<lparr>id_axis = fst ka, name_axis = ''Axis '' @ py_str (fst ka), areas = []\<rparr>]))"
proof (cases "find (\<lambda>x. id_axis x = fst ka) d")
  case None
  then have "fst ka \<notin> set (map id_axis d)" using find_None_ids[of "fst ka" d] by blast
  with None show ?thesis by (simp add: add_pair_def add_to_structure_def)
next
  case (Some x)
  then have "fst ka \<in> set (map id_axis d)" using find_None_ids[of "fst ka" d] by auto
  with Some show ?thesis by (simp add: add_pair_def add_to_structure_def)
qed

lemma ids_add_pair:
  "map id_axis (add_pair d ka) =
     (if fst ka \<in> set (map id_axis d) then map id_axis d else map id_axis d @ [fst ka])"
  by (simp add: add_pair_unfold ids_append_area)

lemma areas_of_add_pair:
  "areas_of (add_pair d ka) k' = areas_of d k' @ (if fst ka = k' then [snd ka] else [])"
  by (auto simp: add_pair_unfold areas_of_append_area areas_of_snoc areas_of_absent)

lemma areas_of_foldl:
  "areas_of (foldl add_pair d ars) k' = areas_of d k' @ map snd (filter (\<lambda>ka. fst ka = k') ars)"
  by (induction ars arbitrary: d) (auto simp: areas_of_add_pair)

lemma first_occ_set: "set (first_occ xs) = set xs"
  by (induction xs) auto

lemma first_occ_distinct: "distinct (first_occ xs)"
  by (induction xs) (auto simp: distinct_removeAll)

lemma ids_foldl:
  "distinct (map id_axis d) \<Longrightarrow>
   map id_axis (foldl add_pair d ars) =
     map id_axis d @ filter (\<lambda>k. k \<notin> set (map id_axis d)) (first_occ (map fst ars))"
proof (induction ars arbitrary: d)
  case Nil then show ?case by simp
next
  case (Cons ka ars)
  let ?d' = "add_pair d ka"
  have d': "distinct (map id_axis ?d')" using Cons.prems by (simp add: ids_add_pair)
  note ih = Cons.IH[OF d']
  show ?case
  proof (cases "fst ka \<in> set (map id_axis d)")
    case True
    then have "map id_axis ?d' = map id_axis d" by (simp add: ids_add_pair)
    moreover have "filter (\<lambda>k. k \<notin> set (map id_axis d)) (removeAll (fst ka) xs)
          = filter (\<lambda>k. k \<notin> set (map id_axis d)) xs" for xs
      using True by (induction xs) auto
    ultimately show ?thesis using ih True by simp
  next
    case False
    then have e: "map id_axis ?d' = map id_axis d @ [fst ka]" by (simp add: ids_add_pair)
    have "filter (\<lambda>k. k \<noteq> fst ka \<and> k \<notin> id_axis ` set d) xs
          = filter (\<lambda>k. k \<notin> id_axis ` set d) (removeAll (fst ka) xs)" for xs
      by (induction xs) auto
    with ih e False show ?thesis by simp
  qed
qed

lemma areas_of_member:
  "distinct (map id_axis d) \<Longrightarrow> x \<in> set d \<Longrightarrow> areas_of d (id_axis x) = areas x"
  by (induction d) (auto simp: areas_of_def)

section \<open>Spans\<close>

lemma slice_chars_at: "b \<le> length s \<Longrightarrow> slice s a b = chars_at s a b"
  by (rule nth_equalityI) (auto simp: slice_def chars_at_def)

lemma slice_append: "a \<le> b \<Longrightarrow> b \<le> c \<Longrightarrow> slice s a b @ slice s b c = slice s a c"
proof -
  assume ab: "a \<le> b" and bc: "b \<le> c"
  then have "c - a = (b - a) + (c - b)" by arith
  then have "take (c - a) (drop a s)
               = take (b - a) (drop a s) @ take (c - b) (drop (b - a) (drop a s))"
    by (simp only: take_add)
  with ab show ?thesis by (simp add: slice_def)
qed

lemma slice_to_end: "slice s a (length s) = drop a s"
  by (simp add: slice_def)

lemma map_enumerate_0: "map f (enumerate 0 ms) = map (\<lambda>i. f (i, ms ! i)) [0..<length ms]"
  by (rule nth_equalityI) (auto simp: nth_enumerate_eq)

lemma finditer_chain:
  assumes pr: "proper pat" and i: "i < length (finditer pat 0 s)"
  shows "m_start (finditer pat 0 s ! i) < m_end (finditer pat 0 s ! i)"
    and "m_end (finditer pat 0 s ! i) \<le> span_end (finditer pat 0 s) s i"
    and "span_end (finditer pat 0 s) s i \<le> length s"
proof -
  let ?ms = "finditer pat 0 s"
  have mem: "?ms ! j \<in> set ?ms" if "j < length ?ms" for j using that by simp
  note f = finditer_facts[OF pr mem[OF i]]
  from f show "m_start (?ms ! i) < m_end (?ms ! i)" by simp
  show "m_end (?ms ! i) \<le> span_end ?ms s i"
  proof (cases "Suc i < length ?ms")
    case True
    from sorted_wrt_nth_less[OF finditer_sorted[OF pr, of 0 s] _ True, of i]
    show ?thesis using True by (simp add: span_end_def)
  next
    case False with f show ?thesis by (simp add: span_end_def)
  qed
  show "span_end ?ms s i \<le> length s"
  proof (cases "Suc i < length ?ms")
    case True
    from finditer_facts[OF pr mem[OF True]] show ?thesis using True
      by (simp add: span_end_def)
  next
    case False then show ?thesis by (simp add: span_end_def)
  qed
qed

lemma finditer_order:
  assumes pr: "proper pat" and ij: "i < j" and j: "j < length (finditer pat 0 s)"
  shows "span_end (finditer pat 0 s) s i \<le> m_start (finditer pat 0 s ! j)"
proof -
  let ?ms = "finditer pat 0 s"
  from ij j have si: "Suc i < length ?ms" by simp
  then have e: "span_end ?ms s i = m_start (?ms ! Suc i)" by (simp add: span_end_def)
  show ?thesis
  proof (cases "Suc i = j")
    case True with e show ?thesis by simp
  next
    case False
    with ij have lt: "Suc i < j" by simp
    from sorted_wrt_nth_less[OF finditer_sorted[OF pr, of 0 s] lt j]
    have "m_end (?ms ! Suc i) \<le> m_start (?ms ! j)" .
    moreover from finditer_chain(1)[OF pr si] have "m_start (?ms ! Suc i) < m_end (?ms ! Suc i)" .
    ultimately show ?thesis using e by simp
  qed
qed

lemma tiling_from:
  assumes pr: "proper pat"
  shows "k < length (finditer pat 0 s) \<Longrightarrow>
     concat (map (\<lambda>i. header_text s (finditer pat 0 s ! i)
                        @ span_text (finditer pat 0 s) s (i, finditer pat 0 s ! i))
                 [k..<length (finditer pat 0 s)])
       = drop (m_start (finditer pat 0 s ! k)) s"
proof (induction "length (finditer pat 0 s) - k" arbitrary: k)
  case 0 then show ?case by simp
next
  case (Suc n)
  let ?ms = "finditer pat 0 s"
  let ?f = "\<lambda>i. header_text s (?ms ! i) @ span_text ?ms s (i, ?ms ! i)"
  from Suc.prems have k: "k < length ?ms" .
  note c = finditer_chain[OF pr k]
  have hd: "header_text s (?ms ! k) = slice s (m_start (?ms ! k)) (m_end (?ms ! k))"
    unfolding header_text_def using c by (intro slice_chars_at[symmetric]) simp
  have fk: "?f k = slice s (m_start (?ms ! k)) (span_end ?ms s k)"
    unfolding hd span_text_def using c by (simp add: slice_append)
  have up: "[k..<length ?ms] = k # [Suc k..<length ?ms]" using k by (simp add: upt_conv_Cons)
  show ?case
  proof (cases "Suc k < length ?ms")
    case True
    from Suc.hyps(2) have "n = length ?ms - Suc k" by simp
    from Suc.hyps(1)[OF this True]
    have "concat (map ?f [Suc k..<length ?ms]) = drop (m_start (?ms ! Suc k)) s" .
    moreover have se: "span_end ?ms s k = m_start (?ms ! Suc k)" using True by (simp add: span_end_def)
    moreover have "slice s (m_start (?ms ! k)) (m_start (?ms ! Suc k)) @ drop (m_start (?ms ! Suc k)) s
        = drop (m_start (?ms ! k)) s"
    proof -
      have "m_start (?ms ! k) \<le> m_start (?ms ! Suc k)" "m_start (?ms ! Suc k) \<le> length s"
        using c se by simp_all
      then show ?thesis
        using slice_append[of "m_start (?ms ! k)" "m_start (?ms ! Suc k)" "length s" s]
        by (simp add: slice_to_end)
    qed
    ultimately show ?thesis unfolding up using fk by simp
  next
    case False
    then have "span_end ?ms s k = length s" by (simp add: span_end_def)
    with fk have "?f k = drop (m_start (?ms ! k)) s" by (simp add: slice_to_end)
    moreover from False k have "[k..<length ?ms] = [k]" using up by simp
    ultimately show ?thesis by simp
  qed
qed

lemma tiling:
  assumes pr: "proper pat" and ne: "finditer pat 0 s \<noteq> []"
  shows "concat (map (\<lambda>im. header_text s (snd im) @ span_text (finditer pat 0 s) s im)
                 (enumerate 0 (finditer pat 0 s)))
       = drop (m_start (hd (finditer pat 0 s))) s"
proof -
  let ?ms = "finditer pat 0 s"
  from ne have 0: "0 < length ?ms" by simp
  have "hd ?ms = ?ms ! 0" using ne by (simp add: hd_conv_nth)
  with tiling_from[OF pr 0] show ?thesis by (simp add: map_enumerate_0)
qed

lemma span_text_nth:
  assumes pr: "proper pat" and i: "i < length (finditer pat 0 s)"
  shows "span_text (finditer pat 0 s) s (i, finditer pat 0 s ! i)
          = chars_at s (m_end (finditer pat 0 s ! i)) (span_end (finditer pat 0 s) s i)"
  unfolding span_text_def using finditer_chain(3)[OF pr i] by (simp add: slice_chars_at)

lemma tiled_proper:
  assumes pr: "proper pat" and ne: "finditer pat 0 s \<noteq> []"
  shows "tiled pat s"
proof -
  let ?ms = "finditer pat 0 s"
  let ?g = "\<lambda>im. header_text s (snd im) @ span_text ?ms s im"
  from ne obtain m ms' where ms: "?ms = m # ms'" by (cases ?ms) auto
  then have en: "enumerate 0 ?ms = (0, m) # enumerate (Suc 0) ms'" by simp
  have 0: "0 < length ?ms" using ne by simp
  have m0: "?ms ! 0 = m" "hd ?ms = m" using ms by simp_all
  note c = finditer_chain[OF pr 0, unfolded m0]
  have "concat (map ?g (enumerate 0 ?ms)) = drop (m_start m) s"
    using tiling[OF pr ne] m0 by simp
  then have "header_text s m @ span_text ?ms s (0, m) @ concat (map ?g (tl (enumerate 0 ?ms)))
       = drop (m_start m) s" by (simp add: en)
  then have "drop (length (header_text s m))
        (header_text s m @ span_text ?ms s (0, m) @ concat (map ?g (tl (enumerate 0 ?ms))))
       = drop (length (header_text s m)) (drop (m_start m) s)" by (simp only:)
  moreover have "length (header_text s m) = m_end m - m_start m"
    by (simp add: header_text_def chars_at_def)
  ultimately have "span_text ?ms s (0, m) @ concat (map ?g (tl (enumerate 0 ?ms)))
       = drop (m_end m) s" using c(1) by simp
  moreover have "hd (spans pat s) = span_text ?ms s (0, m)"
    by (simp add: spans_def en)
  ultimately have first: "drop (m_end (hd ?ms)) s
       = hd (spans pat s) @ concat (map ?g (tl (enumerate 0 ?ms)))" using m0 by simp
  have rest: "m_end (?ms ! i) \<le> span_end ?ms s i \<and> span_end ?ms s i \<le> length s \<and>
            spans pat s ! i = chars_at s (m_end (?ms ! i)) (span_end ?ms s i) \<and>
            (\<forall>j<length ?ms. i < j \<longrightarrow>
               span_end ?ms s i \<le> m_start (?ms ! j) \<and> m_start (?ms ! j) < m_end (?ms ! j))"
    if i: "i < length ?ms" for i
  proof -
    have "spans pat s ! i = span_text ?ms s (i, ?ms ! i)"
      using i by (simp add: spans_def nth_enumerate_eq)
    with span_text_nth[OF pr i] finditer_chain[OF pr i] finditer_order[OF pr _ _, of i]
      finditer_chain(1)[OF pr]
    show ?thesis by simp
  qed
  from first rest show ?thesis unfolding tiled_def Let_def by blast
qed

section \<open>The assembled tree\<close>

lemma map_Inr_nth:
  assumes "map mk (enumerate 0 ms) = map Inr vs"
  shows "length vs = length ms" and "i < length ms \<Longrightarrow> mk (i, ms ! i) = Inr (vs ! i)"
proof -
  from assms have "length (map mk (enumerate 0 ms)) = length (map Inr vs)" by simp
  then show l: "length vs = length ms" by simp
  assume i: "i < length ms"
  from assms have "map mk (enumerate 0 ms) ! i = map Inr vs ! i" by simp
  with i l show "mk (i, ms ! i) = Inr (vs ! i)" by (simp add: nth_enumerate_eq)
qed

lemma sum_filter_lengths:
  "distinct ks \<Longrightarrow> set (map fst ars) \<subseteq> set ks \<Longrightarrow>
     sum_list (map (\<lambda>k. length (filter (\<lambda>ka. fst ka = k) ars)) ks) = length ars"
proof (induction ars)
  case Nil then show ?case by (induction ks) auto
next
  case (Cons ka ars)
  have one: "sum_list (map (\<lambda>k. if fst ka = k then Suc 0 else 0) ks) = Suc 0"
    if "distinct ks" "fst ka \<in> set ks" for ks :: "'a list"
    using that
  proof (induction ks)
    case Nil then show ?case by simp
  next
    case (Cons k ks)
    show ?case
    proof (cases "fst ka = k")
      case True
      with Cons.prems have "fst ka \<notin> set ks" by simp
      then have "sum_list (map (\<lambda>k. if fst ka = k then Suc 0 else 0) ks) = 0"
        by (induction ks) auto
      with True show ?thesis by simp
    next
      case False with Cons show ?thesis by simp
    qed
  qed
  have "sum_list (map (\<lambda>k. length (filter (\<lambda>ka. fst ka = k) (ka # ars))) ks)
      = sum_list (map (\<lambda>k. (if fst ka = k then Suc 0 else 0) + length (filter (\<lambda>ka. fst ka = k) ars)) ks)"
    by (intro arg_cong[where f = sum_list] map_cong) auto
  also have "\<dots> = sum_list (map (\<lambda>k. if fst ka = k then Suc 0 else 0) ks)
                 + sum_list (map (\<lambda>k. length (filter (\<lambda>ka. fst ka = k) ars)) ks)"
    by (simp add: sum_list_addf)
  also have "\<dots> = Suc 0 + length ars"
    using one[of ks] Cons by simp
  finally show ?case by simp
qed

lemma parse_inv:
  assumes "parse_drd_content content = Inr r"
  shows "\<exists>ars. map (build_area content (finditer area_pattern 0 content))
                   (enumerate 0 (finditer area_pattern 0 content)) = map Inr ars \<and>
               r = foldl add_pair [] ars"
proof -
  let ?ms = "finditer area_pattern 0 content"
  have "(\<lambda>drd_data im. bind_e (build_area content ?ms im)
            (\<lambda>(axis_num, area). Inr (add_to_structure drd_data axis_num area)))
      = (\<lambda>drd_data im. bind_e (build_area content ?ms im) (\<lambda>v. Inr (add_pair drd_data v)))"
    by (simp add: add_pair_def case_prod_unfold)
  with assms have "for_each
      (\<lambda>drd_data im. bind_e (build_area content ?ms im) (\<lambda>v. Inr (add_pair drd_data v)))
      (enumerate 0 ?ms) [] = Inr r"
    by (simp add: parse_drd_content_def Let_def)
  from for_each_inv[OF this] show ?thesis .
qed

lemma parse_structure:
  assumes "parse_drd_content content = Inr r"
  shows "\<exists>ars. length ars = length (finditer area_pattern 0 content) \<and>
     (\<forall>i<length ars. build_area content (finditer area_pattern 0 content)
                       (i, finditer area_pattern 0 content ! i) = Inr (ars ! i)) \<and>
     map id_axis r = first_occ (map fst ars) \<and>
     (\<forall>x\<in>set r. areas x = map snd (filter (\<lambda>ka. fst ka = id_axis x) ars))"
proof -
  let ?ms = "finditer area_pattern 0 content"
  from parse_inv[OF assms] obtain ars where
    m: "map (build_area content ?ms) (enumerate 0 ?ms) = map Inr ars" and
    r: "r = foldl add_pair [] ars" by blast
  have ids: "map id_axis r = first_occ (map fst ars)"
    unfolding r using ids_foldl[of "[]" ars] by simp
  then have dist: "distinct (map id_axis r)" by (simp add: first_occ_distinct)
  have "areas x = map snd (filter (\<lambda>ka. fst ka = id_axis x) ars)" if "x \<in> set r" for x
  proof -
    from areas_of_member[OF dist that] have "areas x = areas_of r (id_axis x)" by simp
    also have "\<dots> = map snd (filter (\<lambda>ka. fst ka = id_axis x) ars)"
      unfolding r
      using areas_of_foldl[of "[]" ars "id_axis x"] areas_of_absent[of "id_axis x" "[]"]
      by simp
    finally show ?thesis .
  qed
  with ids map_Inr_nth[OF m] show ?thesis by (intro exI[of _ ars]) simp
qed

lemma parse_returns_iff:
  "(\<exists>r. parse_drd_content content = Inr r) \<longleftrightarrow> short_numbers content"
proof -
  let ?ms = "finditer area_pattern 0 content"
  have "(\<lambda>drd_data im. bind_e (build_area content ?ms im)
            (\<lambda>(axis_num, area). Inr (add_to_structure drd_data axis_num area)))
      = (\<lambda>drd_data im. bind_e (build_area content ?ms im) (\<lambda>v. Inr (add_pair drd_data v)))"
    by (simp add: add_pair_def case_prod_unfold)
  then have "(\<exists>r. parse_drd_content content = Inr r)
      \<longleftrightarrow> (\<forall>im\<in>set (enumerate 0 ?ms). \<exists>ka. build_area content ?ms im = Inr ka)"
    unfolding parse_drd_content_def Let_def by (simp only: for_each_returns_iff)
  also have "\<dots> \<longleftrightarrow> (\<forall>im\<in>set (enumerate 0 ?ms).
        \<exists>ls. parse_levels (span_text ?ms content im) = Inr ls)"
  proof (rule ball_cong[OF refl])
    fix im assume im: "im \<in> set (enumerate 0 ?ms)"
    obtain i m where e: "im = (i, m)" by (cases im)
    with im have "m \<in> set ?ms" by (auto simp: in_set_enumerate_eq)
    from build_area_returns_iff[OF this, of content ?ms i] e
    show "(\<exists>ka. build_area content ?ms im = Inr ka)
        \<longleftrightarrow> (\<exists>ls. parse_levels (span_text ?ms content im) = Inr ls)" by simp
  qed
  also have "\<dots> \<longleftrightarrow> short_numbers content"
    by (simp add: short_numbers_def Let_def parse_levels_returns_iff)
  finally show ?thesis .
qed

lemma area_in_result:
  assumes ids: "map id_axis r = first_occ (map fst ars)"
    and ar: "\<forall>x\<in>set r. areas x = map snd (filter (\<lambda>ka. fst ka = id_axis x) ars)"
    and i: "i < length ars"
  shows "\<exists>x\<in>set r. id_axis x = fst (ars ! i) \<and> snd (ars ! i) \<in> set (areas x)"
proof -
  from i have "fst (ars ! i) \<in> set (map fst ars)" by simp
  then have "fst (ars ! i) \<in> set (map id_axis r)" by (simp only: ids first_occ_set)
  then obtain x where x: "x \<in> set r" "id_axis x = fst (ars ! i)" by auto
  from i x(2) have "ars ! i \<in> set (filter (\<lambda>ka. fst ka = id_axis x) ars)" by simp
  then have "snd (ars ! i) \<in> snd ` set (filter (\<lambda>ka. fst ka = id_axis x) ars)"
    by (rule imageI)
  then have "snd (ars ! i) \<in> set (map snd (filter (\<lambda>ka. fst ka = id_axis x) ars))"
    by (simp only: set_map)
  also from ar x(1) have "map snd (filter (\<lambda>ka. fst ka = id_axis x) ars) = areas x" by simp
  finally have "snd (ars ! i) \<in> set (areas x)" .
  with x show ?thesis by blast
qed

lemma area_of_result:
  assumes ar: "\<forall>x\<in>set r. areas x = map snd (filter (\<lambda>ka. fst ka = id_axis x) ars)"
    and x: "x \<in> set r" and a: "a \<in> set (areas x)"
  shows "\<exists>i<length ars. a = snd (ars ! i)"
proof -
  from ar x a obtain ka where "ka \<in> set ars" "a = snd ka" by auto
  then show ?thesis by (auto simp: in_set_conv_nth)
qed

lemma parse_levels_descriptions:
  assumes "parse_levels t = Inr ls" and "l \<in> set ls"
  shows "\<exists>s. description l = lvl_desc s"
proof -
  let ?lms = "finditer level_pattern 0 t"
  note m = map_Inr_nth[OF parse_levels_inv[OF assms(1)]]
  from assms(2) obtain j where j: "j < length ls" and lj: "l = ls ! j"
    by (auto simp: in_set_conv_nth)
  from j m(1) have "j < length ?lms" by simp
  from build_level_inv(3)[OF m(2)[OF this]] lj show ?thesis by blast
qed

section \<open>Sample runs\<close>

lemma two_areas_matches:
  "finditer area_pattern 0 two_areas_buffer =
     [\<lparr>m_start = 0, m_end = 10, m_groups = (''2'', ''A'', ''x'')\<rparr>,
      \<lparr>m_start = 11, m_end = 21, m_groups = (''2'', ''B'', ''y'')\<rparr>]"
  by code_simp

lemma two_levels_matches:
  "finditer level_pattern 0 two_levels_text =
     [\<lparr>m_start = 0, m_end = 10, m_groups = (''1'', ''a'')\<rparr>,
      \<lparr>m_start = 13, m_end = 23, m_groups = (''2'', ''c'')\<rparr>]"
  by code_simp

lemma two_areas_result:
  "parse_drd_content two_areas_buffer =
     Inr [\<lparr>id_axis = 2, name_axis = ''Axis 2'',
           areas = [\<lparr>id_area = ''2A'', name_area = ''x'', levels = []\<rparr>,
                    \<lparr>id_area = ''2B'', name_area = ''y'', levels = []\<rparr>]\<rparr>]"
  by code_simp

lemma spaced_result:
  "parse_drd_content spaced_buffer =
     Inr [\<lparr>id_axis = 3, name_axis = ''Axis 3'',
           areas = [\<lparr>id_area = ''3C'', name_area = ''n'',
                     levels = [\<lparr>level = 4, title = ''t'', description = ''d e''\<rparr>]\<rparr>]\<rparr>]"
  by code_simp

lemma plain_matches: "finditer area_pattern 0 plain_buffer = []"
  by code_simp

lemma three_areas_length: "length (finditer area_pattern 0 three_areas_buffer) = 3"
  by code_simp

lemma three_areas_result:
  "parse_drd_content three_areas_buffer =
     Inr [\<lparr>id_axis = 2, name_axis = ''Axis 2'',
           areas = [\<lparr>id_area = ''2A'', name_area = ''x'', levels = []\<rparr>,
                    \<lparr>id_area = ''2B'', name_area = ''y'', levels = []\<rparr>]\<rparr>,
          \<lparr>id_axis = 1, name_axis = ''Axis 1'',
           areas = [\<lparr>id_area = ''1A'', name_area = ''z'', levels = []\<rparr>]\<rparr>]"
  by code_simp

lemma two_areas_first_span:
  "span_text (finditer area_pattern 0 two_areas_buffer) two_areas_buffer
     (0, finditer area_pattern 0 two_areas_buffer ! 0) = [nl]"
  by code_simp

lemma nl_levels: "finditer level_pattern 0 [nl] = []"
  by code_simp

lemma two_levels_result:
  "parse_levels two_levels_text =
     Inr [\<lparr>level = 1, title = ''a'', description = ''b''\<rparr>,
          \<lparr>level = 2, title = ''c'', description = ''''\<rparr>]"
  by code_simp

lemma two_levels_length: "length two_levels_text = 23"
  by code_simp

lemma two_areas_length: "length two_areas_buffer = 21"
  by code_simp

lemma two_areas_second_span:
  "span_text (finditer area_pattern 0 two_areas_buffer) two_areas_buffer
     (1, finditer area_pattern 0 two_areas_buffer ! 1) = []"
  by code_simp

lemma nil_levels: "finditer level_pattern 0 [] = []"
  by code_simp

subsection \<open>A level number above the limit\<close>

lemma takeWhile_run: "\<not> P x \<Longrightarrow> P c \<Longrightarrow> takeWhile P (replicate n c @ x # xs) = replicate n c"
  by (induction n) auto

lemma dropWhile_run: "\<not> P x \<Longrightarrow> P c \<Longrightarrow> dropWhile P (replicate n c @ x # xs) = x # xs"
  by (induction n) auto

lemma takeWhile_other: "\<not> P c \<Longrightarrow> 0 < n \<Longrightarrow> takeWhile P (replicate n c @ xs) = []"
  by (cases n) auto

lemma dropWhile_other:
  "\<not> P c \<Longrightarrow> 0 < n \<Longrightarrow> dropWhile P (replicate n c @ xs) = replicate n c @ xs"
  by (cases n) auto

lemma one_is_digit: "is_digit (CHR ''1'')" "\<not> is_space (CHR ''1'')" "\<not> is_digit (CHR ''.'')"
  "\<not> is_space (CHR ''.'')" "is_space (CHR '' '')"
  by (simp_all add: is_digit_def is_space_def)

lemma long_level_match:
  "level_pattern long_level_text = Some (4308, (replicate 4301 (CHR ''1''), []))"
  by (simp add: level_pattern_def lit_def long_level_text_def Let_def one_is_digit
      takeWhile_other dropWhile_other takeWhile_run dropWhile_run)

lemma long_level_length: "length long_level_text = 4308"
  by (simp add: long_level_text_def)

lemma long_level_matches:
  "finditer level_pattern 0 long_level_text
     = [\<lparr>m_start = 0, m_end = 4308, m_groups = (replicate 4301 (CHR ''1''), [])\<rparr>]"
proof -
  have ne: "long_level_text \<noteq> []" by (simp add: long_level_text_def)
  have "drop 4308 long_level_text = []" by (simp add: long_level_length)
  then have "finditer level_pattern (0 + 4308) (drop 4308 long_level_text) = []"
    by (simp add: finditer.simps)
  with ne long_level_match show ?thesis by (subst finditer.simps) simp
qed

lemma long_level_raises: "parse_levels long_level_text = Inl ValueError"
  by (simp add: parse_levels_def long_level_matches build_level_def bind_e_def
      py_int_over_limit)

section \<open>The enrichment loop and the table\<close>

lemma dom_axis_names: "dom axis_names = {1, 2, 3, 4, 5, 6, 7}"
  by (auto simp: axis_names_def axis_names_table_def dom_map_of_conv_image_fst)

lemma enrich_axis_ok:
  "enrich_axis names x =
     Inr (x\<lparr>name_axis := (case names (id_axis x) of None \<Rightarrow> name_axis x | Some n \<Rightarrow> n)\<rparr>)"
  by (cases "names (id_axis x)") (simp_all add: enrich_axis_def getitem_def bind_e_def)

lemma enrich_ok:
  "enrich names data =
     Inr (map (\<lambda>x. x\<lparr>name_axis :=
                        (case names (id_axis x) of None \<Rightarrow> name_axis x | Some n \<Rightarrow> n)\<rparr>) data)"
  by (induction data) (simp_all add: enrich_axis_ok bind_e_def)

section \<open>The worked scenario\<close>

text \<open>
  C1. Parsing the buffer of the worked scenario gives one axis, with id 1, whose areas are
  ``1A'' named ``Processes'' with the levels (1, ``Basic'', ``some text'') and
  (2, ``Advanced'', ``more text''), and then ``1B'' named ``Other'' with the level
  (1, ``X'', ``text'').
\<close>

theorem scenario_result:
  "parse_drd_content scenario_buffer =
     Inr [\<lparr>id_axis = 1, name_axis = ''Axis 1'',
           areas =
             [\<lparr>id_area = ''1A'', name_area = ''Processes'',
               levels =
                 [\<lparr>level = 1, title = ''Basic'', description = ''some text''\<rparr>,
                  \<lparr>level = 2, title = ''Advanced'', description = ''more text''\<rparr>]\<rparr>,
              \<lparr>id_area = ''1B'', name_area = ''Other'',
               levels = [\<lparr>level = 1, title = ''X'', description = ''text''\<rparr>]\<rparr>]\<rparr>]"
  by code_simp

section \<open>The span of a match\<close>

text \<open>
  C2. At either grain, the text attributed to match \<open>i\<close> is the run of characters of
  the enclosing text from the end of match \<open>i\<close> up to the start of match \<open>i + 1\<close>,
  and for the last match up to the end of the enclosing text; these bounds are in order
  and inside the text. Inner grain: when the levels of a text are returned, there is one
  level for each match, in order, and the description of the level of match \<open>j\<close> is the
  normalisation of that run. Outer grain: when the parser returns, its axes hold one area
  for each outer match, the area of match \<open>i\<close> carrying the fields of that match, and
  the levels of that area are the levels of that run.
\<close>

theorem span_between_matches:
  "(parse_levels area_text = Inr ls \<longrightarrow>
      length ls = length (finditer level_pattern 0 area_text) \<and>
      (\<forall>j<length (finditer level_pattern 0 area_text).
         let lms = finditer level_pattern 0 area_text;
             e = (if j + 1 < length lms then m_start (lms ! (j + 1)) else length area_text)
         in m_end (lms ! j) \<le> e \<and> e \<le> length area_text \<and>
            span_text lms area_text (j, lms ! j) = chars_at area_text (m_end (lms ! j)) e \<and>
            description (ls ! j) = lvl_desc (chars_at area_text (m_end (lms ! j)) e))) \<and>
   (parse_drd_content content = Inr r \<longrightarrow>
      (\<exists>ars. length ars = length (finditer area_pattern 0 content) \<and>
         map id_axis r = first_occ (map fst ars) \<and>
         (\<forall>x\<in>set r. areas x = map snd (filter (\<lambda>ka. fst ka = id_axis x) ars)) \<and>
         (\<forall>i<length (finditer area_pattern 0 content).
            let ms = finditer area_pattern 0 content;
                e = (if i + 1 < length ms then m_start (ms ! (i + 1)) else length content)
            in m_end (ms ! i) \<le> e \<and> e \<le> length content \<and>
               span_text ms content (i, ms ! i) = chars_at content (m_end (ms ! i)) e \<and>
               py_int (fst (m_groups (ms ! i))) = Inr (fst (ars ! i)) \<and>
               id_area (snd (ars ! i)) = py_str (fst (ars ! i)) @ fst (snd (m_groups (ms ! i))) \<and>
               name_area (snd (ars ! i)) = strip (snd (snd (m_groups (ms ! i)))) \<and>
               parse_levels (chars_at content (m_end (ms ! i)) e)
                 = Inr (levels (snd (ars ! i))))))"
proof (intro conjI impI)
  let ?lms = "finditer level_pattern 0 area_text"
  assume p: "parse_levels area_text = Inr ls"
  note m = map_Inr_nth[OF parse_levels_inv[OF p]]
  from m(1) show "length ls = length ?lms" .
  show "\<forall>j<length ?lms.
         let lms = ?lms;
             e = (if j + 1 < length lms then m_start (lms ! (j + 1)) else length area_text)
         in m_end (lms ! j) \<le> e \<and> e \<le> length area_text \<and>
            span_text lms area_text (j, lms ! j) = chars_at area_text (m_end (lms ! j)) e \<and>
            description (ls ! j) = lvl_desc (chars_at area_text (m_end (lms ! j)) e)"
  proof (intro allI impI)
    fix j assume j: "j < length ?lms"
    note c = finditer_chain[OF level_pattern_proper j]
    note s = span_text_nth[OF level_pattern_proper j]
    from build_level_inv(3)[OF m(2)[OF j]]
    have "description (ls ! j) = lvl_desc (span_text ?lms area_text (j, ?lms ! j))" .
    with c s show "let lms = ?lms;
             e = (if j + 1 < length lms then m_start (lms ! (j + 1)) else length area_text)
         in m_end (lms ! j) \<le> e \<and> e \<le> length area_text \<and>
            span_text lms area_text (j, lms ! j) = chars_at area_text (m_end (lms ! j)) e \<and>
            description (ls ! j) = lvl_desc (chars_at area_text (m_end (lms ! j)) e)"
      unfolding Let_def span_end_def by simp
  qed
next
  let ?ms = "finditer area_pattern 0 content"
  assume p: "parse_drd_content content = Inr r"
  from parse_structure[OF p] obtain ars where
    l: "length ars = length ?ms" and
    b: "\<forall>i<length ars. build_area content ?ms (i, ?ms ! i) = Inr (ars ! i)" and
    ids: "map id_axis r = first_occ (map fst ars)" and
    ar: "\<forall>x\<in>set r. areas x = map snd (filter (\<lambda>ka. fst ka = id_axis x) ars)"
    by blast
  have "let ms = ?ms;
            e = (if i + 1 < length ms then m_start (ms ! (i + 1)) else length content)
        in m_end (ms ! i) \<le> e \<and> e \<le> length content \<and>
           span_text ms content (i, ms ! i) = chars_at content (m_end (ms ! i)) e \<and>
           py_int (fst (m_groups (ms ! i))) = Inr (fst (ars ! i)) \<and>
           id_area (snd (ars ! i)) = py_str (fst (ars ! i)) @ fst (snd (m_groups (ms ! i))) \<and>
           name_area (snd (ars ! i)) = strip (snd (snd (m_groups (ms ! i)))) \<and>
           parse_levels (chars_at content (m_end (ms ! i)) e) = Inr (levels (snd (ars ! i)))"
    if i: "i < length ?ms" for i
  proof -
    note c = finditer_chain[OF area_pattern_proper i]
    note s = span_text_nth[OF area_pattern_proper i]
    from b i l have "build_area content ?ms (i, ?ms ! i) = Inr (ars ! i)" by simp
    note v = build_area_inv[OF this]
    from c s v show ?thesis unfolding Let_def span_end_def by simp
  qed
  with l ids ar show "\<exists>ars. length ars = length ?ms \<and>
         map id_axis r = first_occ (map fst ars) \<and>
         (\<forall>x\<in>set r. areas x = map snd (filter (\<lambda>ka. fst ka = id_axis x) ars)) \<and>
         (\<forall>i<length ?ms.
            let ms = ?ms;
                e = (if i + 1 < length ms then m_start (ms ! (i + 1)) else length content)
            in m_end (ms ! i) \<le> e \<and> e \<le> length content \<and>
               span_text ms content (i, ms ! i) = chars_at content (m_end (ms ! i)) e \<and>
               py_int (fst (m_groups (ms ! i))) = Inr (fst (ars ! i)) \<and>
               id_area (snd (ars ! i)) = py_str (fst (ars ! i)) @ fst (snd (m_groups (ms ! i))) \<and>
               name_area (snd (ars ! i)) = strip (snd (snd (m_groups (ms ! i)))) \<and>
               parse_levels (chars_at content (m_end (ms ! i)) e)
                 = Inr (levels (snd (ars ! i))))"
    by (intro exI[of _ ars]) simp
qed

text \<open>
  Two level matches, the second being the last, and two area matches in one buffer.
\<close>

theorem span_between_matches_witness:
  "parse_levels two_levels_text =
     Inr [\<lparr>level = 1, title = ''a'', description = ''b''\<rparr>,
          \<lparr>level = 2, title = ''c'', description = ''''\<rparr>] \<and>
   ''b'' = lvl_desc (chars_at two_levels_text 10 13) \<and>
   '''' = lvl_desc (chars_at two_levels_text 23 23) \<and>
   parse_drd_content two_areas_buffer =
     Inr [\<lparr>id_axis = 2, name_axis = ''Axis 2'',
           areas = [\<lparr>id_area = ''2A'', name_area = ''x'', levels = []\<rparr>,
                    \<lparr>id_area = ''2B'', name_area = ''y'', levels = []\<rparr>]\<rparr>] \<and>
   (\<exists>ars :: (int \<times> area_entry) list.
      length ars = 2 \<and>
      parse_levels (chars_at two_areas_buffer 10 11) = Inr (levels (snd (ars ! 0))) \<and>
      parse_levels (chars_at two_areas_buffer 21 21) = Inr (levels (snd (ars ! 1))))"
proof -
  let ?ls = "[\<lparr>level = 1, title = ''a'', description = ''b''\<rparr>,
              \<lparr>level = 2, title = ''c'', description = ''''\<rparr>]"
  let ?r = "[\<lparr>id_axis = 2, name_axis = ''Axis 2'',
           areas = [\<lparr>id_area = ''2A'', name_area = ''x'', levels = []\<rparr>,
                    \<lparr>id_area = ''2B'', name_area = ''y'', levels = []\<rparr>]\<rparr>]"
  note t = span_between_matches[of two_levels_text ?ls two_areas_buffer ?r]
  from t two_levels_result
  have inner: "\<forall>j<length (finditer level_pattern 0 two_levels_text).
         let lms = finditer level_pattern 0 two_levels_text;
             e = (if j + 1 < length lms then m_start (lms ! (j + 1)) else length two_levels_text)
         in m_end (lms ! j) \<le> e \<and> e \<le> length two_levels_text \<and>
            span_text lms two_levels_text (j, lms ! j)
              = chars_at two_levels_text (m_end (lms ! j)) e \<and>
            description (?ls ! j) = lvl_desc (chars_at two_levels_text (m_end (lms ! j)) e)"
    by blast
  from inner[rule_format, of 0]
  have d0: "''b'' = lvl_desc (chars_at two_levels_text 10 13)"
    by (simp add: two_levels_matches Let_def)
  from inner[rule_format, of 1]
  have d1: "'''' = lvl_desc (chars_at two_levels_text 23 23)"
    by (simp add: two_levels_matches two_levels_length Let_def)
  from t two_areas_result obtain ars :: "(int \<times> area_entry) list" where
    l: "length ars = length (finditer area_pattern 0 two_areas_buffer)" and
    outer: "\<forall>i<length (finditer area_pattern 0 two_areas_buffer).
            let ms = finditer area_pattern 0 two_areas_buffer;
                e = (if i + 1 < length ms then m_start (ms ! (i + 1)) else length two_areas_buffer)
            in m_end (ms ! i) \<le> e \<and> e \<le> length two_areas_buffer \<and>
               span_text ms two_areas_buffer (i, ms ! i)
                 = chars_at two_areas_buffer (m_end (ms ! i)) e \<and>
               py_int (fst (m_groups (ms ! i))) = Inr (fst (ars ! i)) \<and>
               id_area (snd (ars ! i)) = py_str (fst (ars ! i)) @ fst (snd (m_groups (ms ! i))) \<and>
               name_area (snd (ars ! i)) = strip (snd (snd (m_groups (ms ! i)))) \<and>
               parse_levels (chars_at two_areas_buffer (m_end (ms ! i)) e)
                 = Inr (levels (snd (ars ! i)))"
    by blast
  from l have l2: "length ars = 2" by (simp add: two_areas_matches)
  from outer[rule_format, of 0]
  have a0: "parse_levels (chars_at two_areas_buffer 10 11) = Inr (levels (snd (ars ! 0)))"
    by (simp add: two_areas_matches Let_def)
  from outer[rule_format, of 1]
  have a1: "parse_levels (chars_at two_areas_buffer 21 21) = Inr (levels (snd (ars ! 1)))"
    by (simp add: two_areas_matches two_areas_length Let_def)
  from l2 a0 a1 have "\<exists>ars :: (int \<times> area_entry) list.
      length ars = 2 \<and>
      parse_levels (chars_at two_areas_buffer 10 11) = Inr (levels (snd (ars ! 0))) \<and>
      parse_levels (chars_at two_areas_buffer 21 21) = Inr (levels (snd (ars ! 1)))"
    by blast
  with two_levels_result d0 d1 two_areas_result show ?thesis by blast
qed

section \<open>One axis for each axis number\<close>

text \<open>
  C3. Whenever the parser returns a list of axes, their ids are the axis numbers of the
  outer matches in the order of their first occurrence, each once, so that there are as
  many axes as distinct axis numbers; the areas of an axis are the areas built from the
  outer matches with its number, in the order of the matches, and every outer match
  gives exactly one area.
\<close>

theorem axes_deduplicated:
  "parse_drd_content content = Inr r \<Longrightarrow>
   \<exists>ars. length ars = length (finditer area_pattern 0 content) \<and>
     (\<forall>i<length ars.
        build_area content (finditer area_pattern 0 content)
          (i, finditer area_pattern 0 content ! i) = Inr (ars ! i) \<and>
        py_int (fst (m_groups (finditer area_pattern 0 content ! i))) = Inr (fst (ars ! i))) \<and>
     map id_axis r = first_occ (map fst ars) \<and>
     distinct (map id_axis r) \<and>
     length r = card (set (map fst ars)) \<and>
     (\<forall>x\<in>set r. areas x = map snd (filter (\<lambda>ka. fst ka = id_axis x) ars)) \<and>
     sum_list (map (\<lambda>x. length (areas x)) r) = length ars"
proof -
  let ?ms = "finditer area_pattern 0 content"
  assume p: "parse_drd_content content = Inr r"
  from parse_structure[OF p] obtain ars where
    l: "length ars = length ?ms" and
    b: "\<forall>i<length ars. build_area content ?ms (i, ?ms ! i) = Inr (ars ! i)" and
    ids: "map id_axis r = first_occ (map fst ars)" and
    ar: "\<forall>x\<in>set r. areas x = map snd (filter (\<lambda>ka. fst ka = id_axis x) ars)"
    by blast
  have dist: "distinct (map id_axis r)" by (simp add: ids first_occ_distinct)
  have "length r = length (map id_axis r)" by simp
  also have "\<dots> = card (set (map id_axis r))" using dist by (simp only: distinct_card)
  also have "\<dots> = card (set (map fst ars))" by (simp only: ids first_occ_set)
  finally have card: "length r = card (set (map fst ars))" .
  have key: "\<forall>i<length ars. py_int (fst (m_groups (?ms ! i))) = Inr (fst (ars ! i))"
    using b build_area_inv(1) by blast
  have "map (\<lambda>x. length (areas x)) r
      = map (\<lambda>k. length (filter (\<lambda>ka. fst ka = k) ars)) (map id_axis r)"
    using ar by (simp add: comp_def)
  then have "sum_list (map (\<lambda>x. length (areas x)) r) = length ars"
    using sum_filter_lengths[OF dist, of ars] by (simp add: ids first_occ_set)
  with l b ids dist card ar key show ?thesis
    by (intro exI[of _ ars]) simp
qed

text \<open>
  Three headers with the axis numbers 2, 1, 2: two axes, 2 before 1, the first with
  the two areas of number 2 in their order.
\<close>

theorem axes_deduplicated_witness:
  "\<exists>ars :: (int \<times> area_entry) list.
     parse_drd_content three_areas_buffer =
       Inr [\<lparr>id_axis = 2, name_axis = ''Axis 2'',
             areas = [\<lparr>id_area = ''2A'', name_area = ''x'', levels = []\<rparr>,
                      \<lparr>id_area = ''2B'', name_area = ''y'', levels = []\<rparr>]\<rparr>,
            \<lparr>id_axis = 1, name_axis = ''Axis 1'',
             areas = [\<lparr>id_area = ''1A'', name_area = ''z'', levels = []\<rparr>]\<rparr>] \<and>
     length ars = 3 \<and> first_occ (map fst ars) = [2, 1] \<and> card (set (map fst ars)) = 2"
  using axes_deduplicated[OF three_areas_result]
  apply (elim exE conjE)
  subgoal for ars
    by (intro exI[of _ ars]) (auto simp: three_areas_result three_areas_length)
  done

section \<open>Spans and headers tile the text\<close>

text \<open>
  The spans alone do not cover the text after the first match: in the buffer with two area
  headers the second header lies between the two spans.
\<close>

theorem spans_leave_header_gaps:
  "concat (spans area_pattern two_areas_buffer)
     \<noteq> drop (m_end (hd (finditer area_pattern 0 two_areas_buffer))) two_areas_buffer"
  by code_simp

text \<open>
  C4, amended. At either grain, when there is a match, the spans do not overlap and,
  together with the texts of the headers after the first, make up exactly the text from the
  end of the first match to the end of the buffer.
\<close>

theorem spans_and_headers_tile:
  "(finditer area_pattern 0 content \<noteq> [] \<longrightarrow> tiled area_pattern content) \<and>
   (finditer level_pattern 0 area_text \<noteq> [] \<longrightarrow> tiled level_pattern area_text)"
  using tiled_proper[OF area_pattern_proper] tiled_proper[OF level_pattern_proper] by blast

text \<open>Both grains on sample texts with two matches.\<close>

theorem spans_and_headers_tile_witness:
  "finditer area_pattern 0 two_areas_buffer \<noteq> [] \<and> tiled area_pattern two_areas_buffer \<and>
   finditer level_pattern 0 two_levels_text \<noteq> [] \<and> tiled level_pattern two_levels_text"
proof -
  have a: "finditer area_pattern 0 two_areas_buffer \<noteq> []" by (simp add: two_areas_matches)
  have l: "finditer level_pattern 0 two_levels_text \<noteq> []" by (simp add: two_levels_matches)
  from spans_and_headers_tile[of two_areas_buffer two_levels_text] a l show ?thesis by simp
qed

section \<open>Descriptions are normalised\<close>

text \<open>
  C5. Whenever the parser returns, every description of every level in its result has no
  line-break character, no two neighbouring white-space characters, and no white space
  at its start or end.
\<close>

theorem descriptions_normalized:
  "parse_drd_content content = Inr r \<Longrightarrow>
   \<forall>x\<in>set r. \<forall>a\<in>set (areas x). \<forall>l\<in>set (levels a).
     (\<forall>c\<in>set (description l). \<not> is_linebreak c) \<and>
     no_ws_run (description l) \<and> trimmed (description l)"
proof (intro ballI)
  fix x a lv
  assume p: "parse_drd_content content = Inr r"
    and x: "x \<in> set r" and a: "a \<in> set (areas x)" and lv: "lv \<in> set (levels a)"
  let ?ms = "finditer area_pattern 0 content"
  from parse_structure[OF p] obtain ars where
    b: "\<forall>i<length ars. build_area content ?ms (i, ?ms ! i) = Inr (ars ! i)" and
    ar: "\<forall>x\<in>set r. areas x = map snd (filter (\<lambda>ka. fst ka = id_axis x) ars)"
    by blast
  from area_of_result[OF ar x a] obtain i where i: "i < length ars" and ai: "a = snd (ars ! i)"
    by blast
  from b i have "build_area content ?ms (i, ?ms ! i) = Inr (ars ! i)" by simp
  from build_area_inv(4)[OF this] ai
  have "parse_levels (span_text ?ms content (i, ?ms ! i)) = Inr (levels a)" by simp
  from parse_levels_descriptions[OF this lv] obtain s where s: "description lv = lvl_desc s" ..
  have "\<not> is_linebreak c" if "c \<in> set (description lv)" for c
    using that linebreak_is_space[of c] lvl_desc_spaces[of c s] linebreak_not_sp
    by (auto simp: s)
  then show "(\<forall>c\<in>set (description lv). \<not> is_linebreak c) \<and>
     no_ws_run (description lv) \<and> trimmed (description lv)"
    by (simp add: s lvl_desc_no_run lvl_desc_trimmed)
qed

text \<open>
  A description cut from blanks and two line feeds around two words.
\<close>

theorem descriptions_normalized_witness:
  "parse_drd_content spaced_buffer =
     Inr [\<lparr>id_axis = 3, name_axis = ''Axis 3'',
           areas = [\<lparr>id_area = ''3C'', name_area = ''n'',
                     levels = [\<lparr>level = 4, title = ''t'', description = ''d e''\<rparr>]\<rparr>]\<rparr>] \<and>
   \<not> is_linebreak CHR ''d'' \<and> \<not> is_linebreak CHR '' '' \<and> \<not> is_linebreak CHR ''e'' \<and>
   no_ws_run ''d e'' \<and> trimmed ''d e''"
  using descriptions_normalized[OF spaced_result] spaced_result by simp

section \<open>Normalising twice\<close>

text \<open>
  C6. The normalisation of a description is idempotent: applying it twice gives the same
  string as applying it once. This holds for the steps in the order of the source (line
  feeds replaced, ends trimmed, runs collapsed) and in the order of the specification
  (line feeds replaced, runs collapsed, ends trimmed), which give the same string.
\<close>

theorem normalization_idempotent:
  "lvl_desc (lvl_desc s) = lvl_desc s \<and>
   normalize_spec (normalize_spec s) = normalize_spec s \<and>
   normalize_spec s = lvl_desc s"
  by (simp add: normalize_spec_eq lvl_desc_idem)

section \<open>Degenerate inputs\<close>

text \<open>
  C7. The empty buffer and every buffer in which the area pattern matches nowhere give the
  empty list without an error. An area whose span has no match of the level pattern is
  built without an error, with an empty list of levels. When no area of a buffer has a
  level match, the parser returns, with one area for each outer match and every list of
  levels empty. And whenever the parser returns, the area built from each outer match is
  in the result, under the axis of its number, with an empty list of levels if its span
  has no level match.
\<close>

theorem degenerate_inputs:
  "parse_drd_content [] = Inr [] \<and>
   (no_match area_pattern content \<longrightarrow> parse_drd_content content = Inr []) \<and>
   (\<forall>i<length (finditer area_pattern 0 content).
      let ms = finditer area_pattern 0 content
      in no_match level_pattern (span_text ms content (i, ms ! i)) \<longrightarrow>
         (\<exists>k. build_area content ms (i, ms ! i)
                = Inr (k, \<lparr>id_area = py_str k @ fst (snd (m_groups (ms ! i))),
                           name_area = strip (snd (snd (m_groups (ms ! i)))),
                           levels = []\<rparr>))) \<and>
   ((\<forall>i<length (finditer area_pattern 0 content).
       no_match level_pattern
         (span_text (finditer area_pattern 0 content) content
            (i, finditer area_pattern 0 content ! i))) \<longrightarrow>
    (\<exists>r. parse_drd_content content = Inr r \<and>
         sum_list (map (\<lambda>x. length (areas x)) r) = length (finditer area_pattern 0 content) \<and>
         (\<forall>x\<in>set r. \<forall>a\<in>set (areas x). levels a = []))) \<and>
   (parse_drd_content content = Inr r \<longrightarrow>
    (\<exists>ars. length ars = length (finditer area_pattern 0 content) \<and>
       map id_axis r = first_occ (map fst ars) \<and>
       (\<forall>x\<in>set r. areas x = map snd (filter (\<lambda>ka. fst ka = id_axis x) ars)) \<and>
       (\<forall>i<length ars.
          build_area content (finditer area_pattern 0 content)
            (i, finditer area_pattern 0 content ! i) = Inr (ars ! i) \<and>
          (\<exists>x\<in>set r. id_axis x = fst (ars ! i) \<and> snd (ars ! i) \<in> set (areas x)) \<and>
          (no_match level_pattern
             (span_text (finditer area_pattern 0 content) content
                (i, finditer area_pattern 0 content ! i))
           \<longrightarrow> levels (snd (ars ! i)) = []))))"
proof (intro conjI)
  let ?ms = "finditer area_pattern 0 content"
  let ?sp = "\<lambda>i. span_text ?ms content (i, ?ms ! i)"
  show "parse_drd_content [] = Inr []"
    by (simp add: parse_drd_content_def finditer.simps)
  show "no_match area_pattern content \<longrightarrow> parse_drd_content content = Inr []"
    by (simp add: parse_drd_content_def finditer_none)
  show "\<forall>i<length ?ms.
      let ms = ?ms
      in no_match level_pattern (span_text ms content (i, ms ! i)) \<longrightarrow>
         (\<exists>k. build_area content ms (i, ms ! i)
                = Inr (k, \<lparr>id_area = py_str k @ fst (snd (m_groups (ms ! i))),
                           name_area = strip (snd (snd (m_groups (ms ! i)))),
                           levels = []\<rparr>))"
    unfolding Let_def
  proof (intro allI impI)
    fix i assume "i < length ?ms" and n: "no_match level_pattern (?sp i)"
    then have "?ms ! i \<in> set ?ms" by simp
    from build_area_no_levels[OF this n]
    show "\<exists>k. build_area content ?ms (i, ?ms ! i)
                = Inr (k, \<lparr>id_area = py_str k @ fst (snd (m_groups (?ms ! i))),
                           name_area = strip (snd (snd (m_groups (?ms ! i)))),
                           levels = []\<rparr>)" .
  qed
  have inv: "\<exists>ars. length ars = length ?ms \<and>
       map id_axis r' = first_occ (map fst ars) \<and>
       (\<forall>x\<in>set r'. areas x = map snd (filter (\<lambda>ka. fst ka = id_axis x) ars)) \<and>
       (\<forall>i<length ars.
          build_area content ?ms (i, ?ms ! i) = Inr (ars ! i) \<and>
          (\<exists>x\<in>set r'. id_axis x = fst (ars ! i) \<and> snd (ars ! i) \<in> set (areas x)) \<and>
          (no_match level_pattern (?sp i) \<longrightarrow> levels (snd (ars ! i)) = []))"
    if p: "parse_drd_content content = Inr r'" for r'
  proof -
    from parse_structure[OF p] obtain ars where
      l: "length ars = length ?ms" and
      b: "\<forall>i<length ars. build_area content ?ms (i, ?ms ! i) = Inr (ars ! i)" and
      ids: "map id_axis r' = first_occ (map fst ars)" and
      ar: "\<forall>x\<in>set r'. areas x = map snd (filter (\<lambda>ka. fst ka = id_axis x) ars)"
      by blast
    have "levels (snd (ars ! i)) = []"
      if i: "i < length ars" and n: "no_match level_pattern (?sp i)" for i
    proof -
      from b i have "build_area content ?ms (i, ?ms ! i) = Inr (ars ! i)" by simp
      from build_area_inv(4)[OF this] parse_levels_no_match[OF n] show ?thesis by simp
    qed
    with l b ids ar area_in_result[OF ids ar] show ?thesis
      by (intro exI[of _ ars]) simp
  qed
  from inv show "parse_drd_content content = Inr r \<longrightarrow>
    (\<exists>ars. length ars = length ?ms \<and>
       map id_axis r = first_occ (map fst ars) \<and>
       (\<forall>x\<in>set r. areas x = map snd (filter (\<lambda>ka. fst ka = id_axis x) ars)) \<and>
       (\<forall>i<length ars.
          build_area content ?ms (i, ?ms ! i) = Inr (ars ! i) \<and>
          (\<exists>x\<in>set r. id_axis x = fst (ars ! i) \<and> snd (ars ! i) \<in> set (areas x)) \<and>
          (no_match level_pattern (?sp i) \<longrightarrow> levels (snd (ars ! i)) = [])))"
    by blast
  show "(\<forall>i<length ?ms. no_match level_pattern (?sp i)) \<longrightarrow>
    (\<exists>r. parse_drd_content content = Inr r \<and>
         sum_list (map (\<lambda>x. length (areas x)) r) = length ?ms \<and>
         (\<forall>x\<in>set r. \<forall>a\<in>set (areas x). levels a = []))"
  proof
    assume all: "\<forall>i<length ?ms. no_match level_pattern (?sp i)"
    have "short_numbers content"
      unfolding short_numbers_def Let_def
    proof (intro ballI)
      fix im lm
      assume im: "im \<in> set (enumerate 0 ?ms)"
        and lm: "lm \<in> set (finditer level_pattern 0 (span_text ?ms content im))"
      obtain i m where e: "im = (i, m)" by (cases im)
      with im have "i < length ?ms" "m = ?ms ! i" by (auto simp: in_set_enumerate_eq)
      with all e have "no_match level_pattern (span_text ?ms content im)" by simp
      from finditer_none[OF this, of 0] lm
      show "length (fst (m_groups lm)) \<le> int_max_str_digits" by simp
    qed
    then obtain r' where p: "parse_drd_content content = Inr r'"
      using parse_returns_iff by blast
    from inv[OF p] obtain ars where
      l: "length ars = length ?ms" and
      ids: "map id_axis r' = first_occ (map fst ars)" and
      ar: "\<forall>x\<in>set r'. areas x = map snd (filter (\<lambda>ka. fst ka = id_axis x) ars)" and
      e: "\<forall>i<length ars. no_match level_pattern (?sp i) \<longrightarrow> levels (snd (ars ! i)) = []"
      by blast
    have dist: "distinct (map id_axis r')" by (simp add: ids first_occ_distinct)
    have "map (\<lambda>x. length (areas x)) r'
        = map (\<lambda>k. length (filter (\<lambda>ka. fst ka = k) ars)) (map id_axis r')"
      using ar by (simp add: comp_def)
    then have sum: "sum_list (map (\<lambda>x. length (areas x)) r') = length ?ms"
      using sum_filter_lengths[OF dist, of ars] l by (simp add: ids first_occ_set)
    have "levels a = []" if x: "x \<in> set r'" and a: "a \<in> set (areas x)" for x a
    proof -
      from area_of_result[OF ar x a] obtain i where "i < length ars" "a = snd (ars ! i)"
        by blast
      with e all l show ?thesis by simp
    qed
    with p sum show "\<exists>r. parse_drd_content content = Inr r \<and>
         sum_list (map (\<lambda>x. length (areas x)) r) = length ?ms \<and>
         (\<forall>x\<in>set r. \<forall>a\<in>set (areas x). levels a = [])"
      by blast
  qed
qed

text \<open>
  A buffer without a header, and the buffer with two headers, whose spans are a single
  line feed and the empty text.
\<close>

theorem degenerate_inputs_witness:
  "no_match area_pattern plain_buffer \<and> parse_drd_content plain_buffer = Inr [] \<and>
   no_match level_pattern
     (span_text (finditer area_pattern 0 two_areas_buffer) two_areas_buffer
        (0, finditer area_pattern 0 two_areas_buffer ! 0)) \<and>
   no_match level_pattern
     (span_text (finditer area_pattern 0 two_areas_buffer) two_areas_buffer
        (1, finditer area_pattern 0 two_areas_buffer ! 1)) \<and>
   (\<exists>k. build_area two_areas_buffer (finditer area_pattern 0 two_areas_buffer)
           (0, finditer area_pattern 0 two_areas_buffer ! 0)
         = Inr (k, \<lparr>id_area = py_str k @ ''A'', name_area = ''x'', levels = []\<rparr>)) \<and>
   (\<exists>r. parse_drd_content two_areas_buffer = Inr r \<and>
        sum_list (map (\<lambda>x. length (areas x)) r) = 2)"
proof -
  let ?ms = "finditer area_pattern 0 two_areas_buffer"
  have a: "no_match area_pattern plain_buffer"
    using finditer_Nil_no_match[OF area_pattern_proper plain_matches] .
  have n0: "no_match level_pattern (span_text ?ms two_areas_buffer (0, ?ms ! 0))"
    unfolding two_areas_first_span
    using finditer_Nil_no_match[OF level_pattern_proper nl_levels] .
  have n1: "no_match level_pattern (span_text ?ms two_areas_buffer (1, ?ms ! 1))"
    unfolding two_areas_second_span
    using finditer_Nil_no_match[OF level_pattern_proper nil_levels] .
  have len: "length ?ms = 2" by (simp add: two_areas_matches)
  from degenerate_inputs[of plain_buffer] a
  have e: "parse_drd_content plain_buffer = Inr []" by blast
  note t = degenerate_inputs[of two_areas_buffer]
  from t have "\<forall>i<length ?ms.
      let ms = ?ms
      in no_match level_pattern (span_text ms two_areas_buffer (i, ms ! i)) \<longrightarrow>
         (\<exists>k. build_area two_areas_buffer ms (i, ms ! i)
                = Inr (k, \<lparr>id_area = py_str k @ fst (snd (m_groups (ms ! i))),
                           name_area = strip (snd (snd (m_groups (ms ! i)))),
                           levels = []\<rparr>))"
    by blast
  from this[rule_format, of 0] n0 len
  have "\<exists>k. build_area two_areas_buffer ?ms (0, ?ms ! 0)
                = Inr (k, \<lparr>id_area = py_str k @ fst (snd (m_groups (?ms ! 0))),
                           name_area = strip (snd (snd (m_groups (?ms ! 0)))),
                           levels = []\<rparr>)"
    by (simp add: Let_def)
  moreover have "fst (snd (m_groups (?ms ! 0))) = ''A''"
    "strip (snd (snd (m_groups (?ms ! 0)))) = ''x''" by code_simp+
  ultimately have b: "\<exists>k. build_area two_areas_buffer ?ms (0, ?ms ! 0)
         = Inr (k, \<lparr>id_area = py_str k @ ''A'', name_area = ''x'', levels = []\<rparr>)"
    by simp
  have all: "\<forall>i<length ?ms. no_match level_pattern (span_text ?ms two_areas_buffer (i, ?ms ! i))"
    using n0 n1 len by (simp add: All_less_Suc numeral_2_eq_2)
  with t have "\<exists>r. parse_drd_content two_areas_buffer = Inr r \<and>
         sum_list (map (\<lambda>x. length (areas x)) r) = length ?ms \<and>
         (\<forall>x\<in>set r. \<forall>a\<in>set (areas x). levels a = [])"
    by blast
  with len have r: "\<exists>r. parse_drd_content two_areas_buffer = Inr r \<and>
        sum_list (map (\<lambda>x. length (areas x)) r) = 2" by auto
  from a e n0 n1 b r show ?thesis by blast
qed

section \<open>The names of the axes\<close>

text \<open>
  C8. For every list of axes and every table, the enrichment raises no error and returns
  a list of the same length in which each axis keeps its id and its areas; its name is
  the name the table gives for its id, and is unchanged when the table has no entry for
  the id.
\<close>

theorem enrich_frame:
  "\<exists>out. enrich names data = Inr out \<and> length out = length data \<and>
     (\<forall>i<length data.
        id_axis (out ! i) = id_axis (data ! i) \<and>
        areas (out ! i) = areas (data ! i) \<and>
        name_axis (out ! i) =
          (case names (id_axis (data ! i)) of None \<Rightarrow> name_axis (data ! i) | Some n \<Rightarrow> n))"
  by (simp add: enrich_ok)

text \<open>One id of the table of the main program and one id outside it.\<close>

theorem enrich_frame_witness:
  "\<exists>out. enrich axis_names
            [\<lparr>id_axis = 1, name_axis = ''Axis 1'', areas = []\<rparr>,
             \<lparr>id_axis = 9, name_axis = ''Axis 9'', areas = []\<rparr>] = Inr out \<and>
         length out = 2 \<and>
         id_axis (out ! 0) = 1 \<and> areas (out ! 0) = [] \<and>
         name_axis (out ! 0) = ''Digital Processes'' \<and>
         id_axis (out ! 1) = 9 \<and> areas (out ! 1) = [] \<and>
         name_axis (out ! 1) = ''Axis 9''"
  using enrich_frame [of axis_names
     "[\<lparr>id_axis = 1, name_axis = ''Axis 1'', areas = []\<rparr>,
       \<lparr>id_axis = 9, name_axis = ''Axis 9'', areas = []\<rparr>]"]
  by (auto simp: axis_names_def axis_names_table_def All_less_Suc)

section \<open>The size of the name table\<close>

text \<open>The table of the main program does not have ten entries.\<close>

theorem axis_names_not_ten_entries: "card (dom axis_names) \<noteq> 10"
  by (simp add: dom_axis_names)

text \<open>
  C9, amended. The table of axis names applied by the main program has exactly seven
  entries, for the ids 1 to 7.
\<close>

theorem axis_names_seven_entries:
  "card (dom axis_names) = 7 \<and> dom axis_names = {1, 2, 3, 4, 5, 6, 7}"
  by (simp add: dom_axis_names)

section \<open>No axis without an area\<close>

text \<open>
  C10. Whenever the parser returns, every axis in the result has at least one area.
\<close>

theorem axes_have_areas:
  "parse_drd_content content = Inr r \<Longrightarrow> \<forall>x\<in>set r. areas x \<noteq> []"
proof
  fix x
  assume p: "parse_drd_content content = Inr r" and x: "x \<in> set r"
  from parse_structure[OF p] obtain ars where
    ids: "map id_axis r = first_occ (map fst ars)" and
    ar: "\<forall>x\<in>set r. areas x = map snd (filter (\<lambda>ka. fst ka = id_axis x) ars)"
    by blast
  from x have "id_axis x \<in> set (map id_axis r)" by simp
  then have "id_axis x \<in> set (map fst ars)" by (simp only: ids first_occ_set)
  then obtain ka where "ka \<in> set ars" "fst ka = id_axis x" by auto
  then have "filter (\<lambda>ka. fst ka = id_axis x) ars \<noteq> []" by (auto simp: filter_empty_conv)
  with ar x show "areas x \<noteq> []" by simp
qed

text \<open>The buffer with three headers.\<close>

theorem axes_have_areas_witness:
  "parse_drd_content three_areas_buffer =
     Inr [\<lparr>id_axis = 2, name_axis = ''Axis 2'',
           areas = [\<lparr>id_area = ''2A'', name_area = ''x'', levels = []\<rparr>,
                    \<lparr>id_area = ''2B'', name_area = ''y'', levels = []\<rparr>]\<rparr>,
          \<lparr>id_axis = 1, name_axis = ''Axis 1'',
           areas = [\<lparr>id_area = ''1A'', name_area = ''z'', levels = []\<rparr>]\<rparr>] \<and>
   [\<lparr>id_area = ''2A'', name_area = ''x'', levels = []\<rparr>,
    \<lparr>id_area = ''2B'', name_area = ''y'', levels = []\<rparr>] \<noteq> [] \<and>
   [\<lparr>id_area = ''1A'', name_area = ''z'', levels = []\<rparr>] \<noteq> []"
  using axes_have_areas[OF three_areas_result] three_areas_result by simp

end
